theory Spec2Isabelle
  imports Main "HOL-Library.Product_Lexorder"
begin

section \<open>Data model\<close>

text \<open>
  A cell is a pair (row, column) of Python integers. A set of cells is a HOL set; Python
  sets are finite, and the order in which Python iterates a set is unspecified. Wherever
  the source iterates a set (\<open>for cell in s\<close>, \<open>tuple(s)\<close>) the model enumerates it in
  increasing order with \<open>elems\<close>. The loops give the same result for every other order
  (\<open>mark_mines_any_order\<close>, \<open>mark_safes_any_order\<close>, \<open>sentence_loop_any_order\<close>).
\<close>

type_synonym cell = "int \<times> int"

definition elems :: "cell set \<Rightarrow> cell list" where
  "elems S = sorted_list_of_set S"

datatype error = KeyError

text \<open>Class \<open>Minesweeper\<close>: the board is a list of rows of booleans.\<close>

record minesweeper =
  board_height :: int
  board_width :: int
  board :: "bool list list"

text \<open>Class \<open>Sentence\<close>: a set of cells and the number of them that are mines.\<close>

record sentence =
  cells :: "cell set"
  count :: int

text \<open>Class \<open>MinesweeperAI\<close>.\<close>

record ai =
  height :: int
  width :: int
  moves_made :: "cell set"
  mines :: "cell set"
  safes :: "cell set"
  knowledge :: "sentence list"

definition init_ai :: "int \<Rightarrow> int \<Rightarrow> ai" where
  "init_ai h w = \<lparr>height = h, width = w, moves_made = {}, mines = {}, safes = {},
     knowledge = []\<rparr>"

section \<open>Minesweeper: the board\<close>

definition is_mine :: "minesweeper \<Rightarrow> cell \<Rightarrow> bool" where
  "is_mine g c = (case c of (i, j) \<Rightarrow> board g ! nat i ! nat j)"

text \<open>
  The two nested \<open>range\<close> loops around a cell, in the order the source visits them,
  without the cell itself.
\<close>

definition around :: "cell \<Rightarrow> cell list" where
  "around c = [(i, j). i \<leftarrow> [fst c - 1..fst c + 1], j \<leftarrow> [snd c - 1..snd c + 1], (i, j) \<noteq> c]"

definition nearby_mines :: "minesweeper \<Rightarrow> cell \<Rightarrow> int" where
  "nearby_mines g c =
     fold (\<lambda>(i, j) n.
        if 0 \<le> i \<and> i < board_height g \<and> 0 \<le> j \<and> j < board_width g
        then (if board g ! nat i ! nat j then n + 1 else n)
        else n) (around c) 0"

section \<open>Sentence\<close>

definition known_mines :: "sentence \<Rightarrow> cell set" where
  "known_mines s =
     (if int (card (cells s)) = count s then fold insert (elems (cells s)) {} else {})"

definition known_safes :: "sentence \<Rightarrow> cell set" where
  "known_safes s =
     (if count s = 0 then fold insert (elems (cells s)) {} else {})"

definition Sentence_mark_mine :: "cell \<Rightarrow> sentence \<Rightarrow> sentence" where
  "Sentence_mark_mine c s =
     (if c \<in> cells s then s\<lparr>cells := cells s - {c}, count := count s + (- 1)\<rparr> else s)"

definition Sentence_mark_safe :: "cell \<Rightarrow> sentence \<Rightarrow> sentence" where
  "Sentence_mark_safe c s =
     (if c \<in> cells s then s\<lparr>cells := cells s - {c}\<rparr> else s)"

section \<open>MinesweeperAI\<close>

definition mark_mine :: "cell \<Rightarrow> ai \<Rightarrow> ai" where
  "mark_mine c a =
     a\<lparr>mines := insert c (mines a), knowledge := map (Sentence_mark_mine c) (knowledge a)\<rparr>"

definition mark_safe :: "cell \<Rightarrow> ai \<Rightarrow> ai" where
  "mark_safe c a =
     a\<lparr>safes := insert c (safes a), knowledge := map (Sentence_mark_safe c) (knowledge a)\<rparr>"

subsection \<open>add_knowledge, step 3: the sentence of the neighbourhood\<close>

definition surrounding_cells :: "ai \<Rightarrow> cell \<Rightarrow> cell set" where
  "surrounding_cells a c =
     fold (\<lambda>(i, j) S.
        if 0 \<le> i \<and> i < height a \<and> 0 \<le> j \<and> j < width a then insert (i, j) S else S)
       (around c) {}"

text \<open>\<open>set.remove\<close> raises \<open>KeyError\<close> when the element is absent.\<close>

definition set_remove :: "cell \<Rightarrow> cell set \<Rightarrow> error + cell set" where
  "set_remove c S = (if c \<in> S then Inr (S - {c}) else Inl KeyError)"

fun sentence_loop :: "ai \<Rightarrow> cell list \<Rightarrow> cell set \<Rightarrow> int \<Rightarrow> error + sentence" where
  "sentence_loop a [] sc n = Inr \<lparr>cells = sc, count = n\<rparr>"
| "sentence_loop a (c # cs) sc n =
     (case (if c \<in> mines a
            then (case set_remove c sc of Inl e \<Rightarrow> Inl e | Inr sc' \<Rightarrow> Inr (sc', n + (- 1)))
            else Inr (sc, n)) of
        Inl e \<Rightarrow> Inl e
      | Inr (sc1, n1) \<Rightarrow>
          (if c \<in> safes a
           then (case set_remove c sc1 of Inl e \<Rightarrow> Inl e | Inr sc2 \<Rightarrow> sentence_loop a cs sc2 n1)
           else sentence_loop a cs sc1 n1))"

definition new_sentence :: "ai \<Rightarrow> cell \<Rightarrow> int \<Rightarrow> error + sentence" where
  "new_sentence a c n =
     sentence_loop a (elems (surrounding_cells a c)) (surrounding_cells a c) n"

subsection \<open>add_knowledge, step 4: marking what the sentences determine\<close>

definition mark_mines :: "cell list \<Rightarrow> ai \<times> cell set \<Rightarrow> ai \<times> cell set" where
  "mark_mines cs st = fold (\<lambda>c (a, ch). (mark_mine c a, insert c ch)) cs st"

definition mark_safes :: "cell list \<Rightarrow> ai \<times> cell set \<Rightarrow> ai \<times> cell set" where
  "mark_safes cs st = fold (\<lambda>c (a, ch). (mark_safe c a, insert c ch)) cs st"

text \<open>
  The body of \<open>for sentence in self.knowledge\<close> at position \<open>i\<close>. The sentence is an
  object of the list, mutated by the marking, so \<open>known_safes\<close> reads it again after
  the mines of \<open>known_mines\<close> are marked.
\<close>

definition visit :: "nat \<Rightarrow> ai \<times> cell set \<Rightarrow> ai \<times> cell set" where
  "visit i st =
     (let st1 = mark_mines (elems (known_mines (knowledge (fst st) ! i))) st
      in mark_safes (elems (known_safes (knowledge (fst st1) ! i))) st1)"

function mark_phase :: "nat \<Rightarrow> ai \<times> cell set \<Rightarrow> ai \<times> cell set" where
  "mark_phase i st =
     (if i < length (knowledge (fst st)) then mark_phase (Suc i) (visit i st) else st)"
  by pat_completeness auto
termination
proof (relation "measure (\<lambda>(i, st). length (knowledge (fst st)) - i)")
  show "wf (measure (\<lambda>(i, st). length (knowledge (fst st)) - i))" by simp
next
  fix i :: nat and st :: "ai \<times> cell set"
  assume i: "i < length (knowledge (fst st))"
  have m: "length (knowledge (fst (mark_mines cs s))) = length (knowledge (fst s))" for cs s
    unfolding mark_mines_def
    by (induction cs arbitrary: s) (auto simp: mark_mine_def split: prod.splits)
  have s: "length (knowledge (fst (mark_safes cs s))) = length (knowledge (fst s))" for cs s
    unfolding mark_safes_def
    by (induction cs arbitrary: s) (auto simp: mark_safe_def split: prod.splits)
  have "length (knowledge (fst (visit i st))) = length (knowledge (fst st))"
    by (simp add: visit_def Let_def m s)
  with i show "((Suc i, visit i st), (i, st))
      \<in> measure (\<lambda>(i, st). length (knowledge (fst st)) - i)"
    by simp
qed

declare mark_phase.simps [simp del]

subsection \<open>add_knowledge, step 5: sentences inferred from subsets\<close>

definition new_sentences :: "sentence list \<Rightarrow> sentence list" where
  "new_sentences kb =
     concat (map (\<lambda>sentence1. concat (map (\<lambda>sentence2.
        if cells sentence1 \<subseteq> cells sentence2 \<and> cells sentence1 \<noteq> cells sentence2
        then [\<lparr>cells = cells sentence2 - cells sentence1,
               count = count sentence2 - count sentence1\<rparr>]
        else []) kb)) kb)"

definition add_new :: "sentence list \<Rightarrow> sentence list \<times> int \<Rightarrow> sentence list \<times> int" where
  "add_new new st =
     fold (\<lambda>s (kb, changes_made).
        if s \<in> set kb then (kb, changes_made) else (kb @ [s], changes_made + 1)) new st"

text \<open>
  One turn of \<open>while counter == 0\<close>: the state after the turn, and whether the turn
  sets \<open>counter\<close> and so leaves the loop.
\<close>

definition closure_pass :: "ai \<Rightarrow> ai \<times> bool" where
  "closure_pass a =
     (case mark_phase 0 (a, {}) of (a1, cells_changed) \<Rightarrow>
        (case add_new (new_sentences (knowledge a1)) (knowledge a1, 0) of
           (kb, changes_made) \<Rightarrow>
             (a1\<lparr>knowledge := kb\<rparr>, card cells_changed = 0 \<and> changes_made = 0)))"

partial_function (option) closure_loop :: "ai \<Rightarrow> ai option" where
  "closure_loop a =
     (case closure_pass a of (a', finished) \<Rightarrow>
        if finished then Some a' else closure_loop a')"

declare closure_loop.simps [code]

subsection \<open>add_knowledge: tidying the knowledge base\<close>

definition count_empty :: "sentence list \<Rightarrow> int" where
  "count_empty kb = fold (\<lambda>s tracker. if card (cells s) = 0 then tracker + 1 else tracker) kb 0"

text \<open>
  \<open>for sentence in self.knowledge\<close> while the loop body removes from that list:
  Python's list iterator keeps an index, and \<open>list.remove\<close> deletes the first
  element equal to its argument.
\<close>

function remove_pass :: "nat \<Rightarrow> sentence list \<Rightarrow> int \<Rightarrow> sentence list \<times> int" where
  "remove_pass i kb tracker =
     (if i < length kb
      then (if card (cells (kb ! i)) = 0
            then remove_pass (Suc i) (remove1 (kb ! i) kb) (tracker + (- 1))
            else remove_pass (Suc i) kb tracker)
      else (kb, tracker))"
  by pat_completeness auto
termination
  by (relation "measure (\<lambda>(i, kb, t). length kb - i)") (auto simp: length_remove1)

declare remove_pass.simps [simp del]

partial_function (option) remove_loop :: "sentence list \<Rightarrow> int \<Rightarrow> sentence list option" where
  "remove_loop kb tracker =
     (if tracker \<noteq> 0
      then (case remove_pass 0 kb tracker of (kb', tracker') \<Rightarrow> remove_loop kb' tracker')
      else Some kb)"

declare remove_loop.simps [code]

definition remove_duplicates :: "sentence list \<Rightarrow> sentence list" where
  "remove_duplicates kb =
     fold (\<lambda>s no_duplicates. if s \<notin> set no_duplicates then no_duplicates @ [s] else no_duplicates)
       kb []"

subsection \<open>add_knowledge\<close>

text \<open>
  The knowledge base before the loop of step 4: the cell is a move made and safe, and
  the sentence of its neighbourhood is appended.
\<close>

definition observe :: "cell \<Rightarrow> ai \<Rightarrow> ai" where
  "observe c a = mark_safe c (a\<lparr>moves_made := insert c (moves_made a), safes := insert c (safes a)\<rparr>)"

text \<open>
  The result is \<open>None\<close> when a loop of the source does not end, \<open>Some (Inl e)\<close> when the
  source raises \<open>e\<close>, and \<open>Some (Inr a')\<close> when it returns with the agent in state \<open>a'\<close>.
\<close>

definition add_knowledge :: "cell \<Rightarrow> int \<Rightarrow> ai \<Rightarrow> (error + ai) option" where
  "add_knowledge c n a =
     (let a1 = observe c a in
      case new_sentence a1 c n of
        Inl e \<Rightarrow> Some (Inl e)
      | Inr s \<Rightarrow>
          (case closure_loop (a1\<lparr>knowledge := knowledge a1 @ [s]\<rparr>) of
             None \<Rightarrow> None
           | Some a2 \<Rightarrow>
               (case remove_loop (knowledge a2) (count_empty (knowledge a2)) of
                  None \<Rightarrow> None
                | Some kb \<Rightarrow> Some (Inr (a2\<lparr>knowledge := remove_duplicates kb\<rparr>)))))"

subsection \<open>Choosing a move\<close>

text \<open>
  \<open>random.choice(seq)\<close> is \<open>seq[randbelow(len(seq))]\<close>. The random source is the
  parameter \<open>r\<close>, and \<open>randbelow n\<close> is \<open>r mod n\<close>.
\<close>

definition random_choice :: "nat \<Rightarrow> 'a list \<Rightarrow> 'a" where
  "random_choice r xs = xs ! (r mod length xs)"

definition make_safe_move :: "nat \<Rightarrow> ai \<Rightarrow> cell option" where
  "make_safe_move r a =
     (let safe_moves = safes a - moves_made a
      in if card safe_moves = 0 then None else Some (random_choice r (elems safe_moves)))"

definition all_cells :: "ai \<Rightarrow> cell set" where
  "all_cells a = fold insert [(i, j). i \<leftarrow> [0..height a - 1], j \<leftarrow> [0..width a - 1]] {}"

definition make_random_move :: "nat \<Rightarrow> ai \<Rightarrow> cell option" where
  "make_random_move r a =
     (let possible_moves = all_cells a - moves_made a - mines a
      in if card possible_moves = 0 then None else Some (random_choice r (elems possible_moves)))"

section \<open>Vocabulary of the properties\<close>

text \<open>
  The number of sentences that the tidying takes as empty, and the list without them.
\<close>

definition empties :: "sentence list \<Rightarrow> nat" where
  "empties kb = length (filter (\<lambda>s. card (cells s) = 0) kb)"

definition nonempty :: "sentence list \<Rightarrow> sentence list" where
  "nonempty kb = filter (\<lambda>s. card (cells s) \<noteq> 0) kb"

text \<open>The position of the first occurrence of a sentence in a list.\<close>

definition first_index :: "sentence list \<Rightarrow> sentence \<Rightarrow> nat" where
  "first_index kb s = length (takeWhile (\<lambda>t. t \<noteq> s) kb)"

text \<open>The cells of a board of the given height and width.\<close>

definition in_bounds :: "int \<Rightarrow> int \<Rightarrow> cell \<Rightarrow> bool" where
  "in_bounds h w p = (0 \<le> fst p \<and> fst p < h \<and> 0 \<le> snd p \<and> snd p < w)"

text \<open>The cells of the board that hold a mine.\<close>

definition true_mines :: "minesweeper \<Rightarrow> cell set" where
  "true_mines g = {p. in_bounds (board_height g) (board_width g) p \<and> is_mine g p}"

text \<open>The board that the constructor builds: \<open>height\<close> rows of \<open>width\<close> booleans.\<close>

definition wf_board :: "minesweeper \<Rightarrow> bool" where
  "wf_board g =
     (length (board g) = nat (board_height g)
      \<and> list_all (\<lambda>row. length row = nat (board_width g)) (board g))"

text \<open>Every sentence has finitely many cells.\<close>

definition finite_kb :: "ai \<Rightarrow> bool" where
  "finite_kb a = list_all (\<lambda>s. finite (cells s)) (knowledge a)"

text \<open>No sentence mentions a cell that is known to be a mine or known to be safe.\<close>

definition unresolved_kb :: "ai \<Rightarrow> bool" where
  "unresolved_kb a = list_all (\<lambda>s. cells s \<inter> (mines a \<union> safes a) = {}) (knowledge a)"

text \<open>The three sets of the second state contain those of the first.\<close>

definition grows :: "ai \<Rightarrow> ai \<Rightarrow> bool" where
  "grows a a' =
     (moves_made a \<subseteq> moves_made a' \<and> mines a \<subseteq> mines a' \<and> safes a \<subseteq> safes a')"

text \<open>
  The agent is right about a board whose mines are \<open>M\<close>: its known mines are mines, its
  known safes are not, and every sentence counts the mines among its cells.
\<close>

definition sound :: "cell set \<Rightarrow> ai \<Rightarrow> bool" where
  "sound M a =
     (mines a \<subseteq> M \<and> safes a \<inter> M = {}
      \<and> list_all (\<lambda>s. finite (cells s) \<and> count s = int (card (cells s \<inter> M))) (knowledge a))"

text \<open>The cells that occur in some sentence of the knowledge base.\<close>

definition occurring :: "ai \<Rightarrow> cell set" where
  "occurring a = \<Union> (cells ` set (knowledge a))"

text \<open>
  What decreases, in the lexicographic order, with every turn of the loop of step 4
  that does not leave the loop.
\<close>

definition closure_measure :: "ai \<Rightarrow> nat \<times> nat" where
  "closure_measure a =
     (card (occurring a), 2 ^ card (occurring a) - card (set (knowledge a)))"

text \<open>
  A sequence of calls of \<open>add_knowledge\<close>, each for a cell of the list with the count that
  the board gives for it.
\<close>

fun play :: "minesweeper \<Rightarrow> cell list \<Rightarrow> ai \<Rightarrow> (error + ai) option" where
  "play g [] a = Some (Inr a)"
| "play g (c # cs) a =
     (case add_knowledge c (nearby_mines g c) a of
        Some (Inr a') \<Rightarrow> play g cs a'
      | r \<Rightarrow> r)"

section \<open>Sets, sentences and moves\<close>

lemma length_knowledge_mark_mines [simp]:
  "length (knowledge (fst (mark_mines cs st))) = length (knowledge (fst st))"
  unfolding mark_mines_def
  by (induction cs arbitrary: st) (auto simp: mark_mine_def split: prod.splits)

lemma length_knowledge_mark_safes [simp]:
  "length (knowledge (fst (mark_safes cs st))) = length (knowledge (fst st))"
  unfolding mark_safes_def
  by (induction cs arbitrary: st) (auto simp: mark_safe_def split: prod.splits)

lemma length_knowledge_visit [simp]:
  "length (knowledge (fst (visit i st))) = length (knowledge (fst st))"
  by (simp add: visit_def Let_def)


lemma fold_insert_set: "fold insert xs A = set xs \<union> A"
  by (induction xs arbitrary: A) auto

lemma set_elems [simp]: "finite S \<Longrightarrow> set (elems S) = S"
  by (simp add: elems_def)

lemma distinct_elems [simp]: "distinct (elems S)"
  by (simp add: elems_def)

lemma length_elems [simp]: "length (elems S) = card S"
  by (simp add: elems_def)

lemma known_mines_eq:
  "finite (cells s) \<Longrightarrow> known_mines s = (if int (card (cells s)) = count s then cells s else {})"
  by (simp add: known_mines_def fold_insert_set)

lemma known_safes_eq:
  "finite (cells s) \<Longrightarrow> known_safes s = (if count s = 0 then cells s else {})"
  by (simp add: known_safes_def fold_insert_set)

lemma Sentence_mark_mine_twice:
  "Sentence_mark_mine c (Sentence_mark_mine c s) = Sentence_mark_mine c s"
  by (simp add: Sentence_mark_mine_def)

lemma Sentence_mark_safe_twice:
  "Sentence_mark_safe c (Sentence_mark_safe c s) = Sentence_mark_safe c s"
  by (simp add: Sentence_mark_safe_def)

lemma random_choice_in:
  "xs \<noteq> [] \<Longrightarrow> random_choice r xs \<in> set xs"
  by (simp add: random_choice_def)

lemma all_cells_eq:
  "all_cells a = {(i, j). 0 \<le> i \<and> i < height a \<and> 0 \<le> j \<and> j < width a}"
  by (auto simp: all_cells_def fold_insert_set)

lemma finite_all_cells: "finite (all_cells a)"
  by (simp add: all_cells_def fold_insert_set)

lemma random_choice_unique:
  assumes "distinct xs" "c \<in> set xs"
  shows "card {k. k < length xs \<and> random_choice k xs = c} = 1"
proof -
  from assms obtain i where i: "i < length xs" "xs ! i = c"
    by (auto simp: in_set_conv_nth)
  have "{k. k < length xs \<and> random_choice k xs = c} = {i}"
    using i assms(1) by (auto simp: random_choice_def nth_eq_iff_index_eq)
  then show ?thesis by simp
qed

section \<open>The marking loop\<close>

lemma elems_known_mines_D:
  assumes "c \<in> set (elems (known_mines s))"
  shows "finite (cells s) \<and> c \<in> cells s \<and> int (card (cells s)) = count s"
proof (cases "finite (cells s)")
  case True
  with assms show ?thesis by (auto simp: known_mines_eq split: if_splits)
next
  case False
  then have "known_mines s = {}"
    by (simp add: known_mines_def elems_def)
  with assms show ?thesis by (simp add: elems_def)
qed

lemma elems_known_safes_D:
  assumes "c \<in> set (elems (known_safes s))"
  shows "finite (cells s) \<and> c \<in> cells s \<and> count s = 0"
proof (cases "finite (cells s)")
  case True
  with assms show ?thesis by (auto simp: known_safes_eq split: if_splits)
next
  case False
  then have "known_safes s = {}"
    by (simp add: known_safes_def elems_def)
  with assms show ?thesis by (simp add: elems_def)
qed

lemma mark_mines_Cons:
  "mark_mines (c # cs) st = mark_mines cs (mark_mine c (fst st), insert c (snd st))"
  by (simp add: mark_mines_def split: prod.splits)

lemma mark_safes_Cons:
  "mark_safes (c # cs) st = mark_safes cs (mark_safe c (fst st), insert c (snd st))"
  by (simp add: mark_safes_def split: prod.splits)

lemma mark_mines_Nil [simp]: "mark_mines [] st = st"
  by (simp add: mark_mines_def)

lemma mark_safes_Nil [simp]: "mark_safes [] st = st"
  by (simp add: mark_safes_def)

lemma mark_mines_rule:
  assumes "P st"
    and "\<And>c st. P st \<Longrightarrow> Q c \<Longrightarrow> P (mark_mine c (fst st), insert c (snd st))"
    and "\<forall>c \<in> set cs. Q c"
  shows "P (mark_mines cs st)"
  using assms(1,3)
proof (induction cs arbitrary: st)
  case Nil
  then show ?case by simp
next
  case (Cons c cs)
  then show ?case by (simp add: mark_mines_Cons assms(2))
qed

lemma mark_safes_rule:
  assumes "P st"
    and "\<And>c st. P st \<Longrightarrow> Q c \<Longrightarrow> P (mark_safe c (fst st), insert c (snd st))"
    and "\<forall>c \<in> set cs. Q c"
  shows "P (mark_safes cs st)"
  using assms(1,3)
proof (induction cs arbitrary: st)
  case Nil
  then show ?case by simp
next
  case (Cons c cs)
  then show ?case by (simp add: mark_safes_Cons assms(2))
qed

lemma visit_rule:
  assumes P: "P st" and i: "i < length (knowledge (fst st))"
    and mine: "\<And>c st. P st \<Longrightarrow> Qm c \<Longrightarrow> P (mark_mine c (fst st), insert c (snd st))"
    and safe: "\<And>c st. P st \<Longrightarrow> Qs c \<Longrightarrow> P (mark_safe c (fst st), insert c (snd st))"
    and km: "\<And>st s c. P st \<Longrightarrow> s \<in> set (knowledge (fst st)) \<Longrightarrow> finite (cells s) \<Longrightarrow>
               c \<in> cells s \<Longrightarrow> int (card (cells s)) = count s \<Longrightarrow> Qm c"
    and ks: "\<And>st s c. P st \<Longrightarrow> s \<in> set (knowledge (fst st)) \<Longrightarrow> finite (cells s) \<Longrightarrow>
               c \<in> cells s \<Longrightarrow> count s = 0 \<Longrightarrow> Qs c"
  shows "P (visit i st)"
proof -
  let ?st1 = "mark_mines (elems (known_mines (knowledge (fst st) ! i))) st"
  have "knowledge (fst st) ! i \<in> set (knowledge (fst st))" using i by simp
  then have "\<forall>c \<in> set (elems (known_mines (knowledge (fst st) ! i))). Qm c"
    using km [OF P] elems_known_mines_D by blast
  then have P1: "P ?st1" using P mine by (rule_tac mark_mines_rule) auto
  have "knowledge (fst ?st1) ! i \<in> set (knowledge (fst ?st1))" using i by simp
  then have "\<forall>c \<in> set (elems (known_safes (knowledge (fst ?st1) ! i))). Qs c"
    using ks [OF P1] elems_known_safes_D by blast
  then have "P (mark_safes (elems (known_safes (knowledge (fst ?st1) ! i))) ?st1)"
    using P1 safe by (rule_tac mark_safes_rule) auto
  then show ?thesis by (simp add: visit_def Let_def)
qed

lemma mark_phase_rule:
  assumes P: "P st"
    and mine: "\<And>c st. P st \<Longrightarrow> Qm c \<Longrightarrow> P (mark_mine c (fst st), insert c (snd st))"
    and safe: "\<And>c st. P st \<Longrightarrow> Qs c \<Longrightarrow> P (mark_safe c (fst st), insert c (snd st))"
    and km: "\<And>st s c. P st \<Longrightarrow> s \<in> set (knowledge (fst st)) \<Longrightarrow> finite (cells s) \<Longrightarrow>
               c \<in> cells s \<Longrightarrow> int (card (cells s)) = count s \<Longrightarrow> Qm c"
    and ks: "\<And>st s c. P st \<Longrightarrow> s \<in> set (knowledge (fst st)) \<Longrightarrow> finite (cells s) \<Longrightarrow>
               c \<in> cells s \<Longrightarrow> count s = 0 \<Longrightarrow> Qs c"
  shows "P (mark_phase i st)"
  using P
proof (induction i st rule: mark_phase.induct)
  case (1 i st)
  show ?case
  proof (cases "i < length (knowledge (fst st))")
    case True
    have "P (visit i st)"
      by (rule visit_rule [where P = P and Qm = Qm and Qs = Qs, OF "1.prems" True mine safe km ks])
    with "1.IH" True show ?thesis by (simp add: mark_phase.simps [of i st])
  next
    case False
    with "1.prems" show ?thesis by (simp add: mark_phase.simps [of i st])
  qed
qed

section \<open>Deriving sentences\<close>

lemma set_new_sentences:
  "set (new_sentences kb) =
     {\<lparr>cells = cells s2 - cells s1, count = count s2 - count s1\<rparr> | s1 s2.
        s1 \<in> set kb \<and> s2 \<in> set kb \<and> cells s1 \<subset> cells s2}"
  by (auto simp: new_sentences_def psubset_eq)

lemma add_new_Cons:
  "add_new (s # new) st =
     add_new new (if s \<in> set (fst st) then st else (fst st @ [s], snd st + 1))"
  by (simp add: add_new_def split: prod.splits)

lemma add_new_Nil [simp]: "add_new [] st = st"
  by (simp add: add_new_def)

lemma set_add_new: "set (fst (add_new new st)) = set (fst st) \<union> set new"
  by (induction new arbitrary: st) (auto simp: add_new_Cons)

lemma add_new_count:
  "snd st \<le> snd (add_new new st)
   \<and> (snd (add_new new st) = snd st \<longrightarrow> add_new new st = st)
   \<and> (snd st < snd (add_new new st) \<longrightarrow> (\<exists>s \<in> set new. s \<notin> set (fst st)))"
proof (induction new arbitrary: st)
  case Nil
  then show ?case by simp
next
  case (Cons s new)
  show ?case
  proof (cases "s \<in> set (fst st)")
    case True
    then show ?thesis using Cons.IH [of st] by (auto simp: add_new_Cons)
  next
    case False
    then show ?thesis using Cons.IH [of "(fst st @ [s], snd st + 1)"]
      by (auto simp: add_new_Cons)
  qed
qed

section \<open>One turn of the loop, and the loop\<close>

lemma closure_pass_rule:
  assumes R: "R a"
    and mine: "\<And>c a. R a \<Longrightarrow> Qm c \<Longrightarrow> R (mark_mine c a)"
    and safe: "\<And>c a. R a \<Longrightarrow> Qs c \<Longrightarrow> R (mark_safe c a)"
    and km: "\<And>a s c. R a \<Longrightarrow> s \<in> set (knowledge a) \<Longrightarrow> finite (cells s) \<Longrightarrow>
               c \<in> cells s \<Longrightarrow> int (card (cells s)) = count s \<Longrightarrow> Qm c"
    and ks: "\<And>a s c. R a \<Longrightarrow> s \<in> set (knowledge a) \<Longrightarrow> finite (cells s) \<Longrightarrow>
               c \<in> cells s \<Longrightarrow> count s = 0 \<Longrightarrow> Qs c"
    and new: "\<And>a kb. R a \<Longrightarrow> set kb = set (knowledge a) \<union> set (new_sentences (knowledge a))
               \<Longrightarrow> R (a\<lparr>knowledge := kb\<rparr>)"
  shows "R (fst (closure_pass a))"
proof -
  obtain a1 ch where m: "mark_phase 0 (a, {}) = (a1, ch)" by (cases "mark_phase 0 (a, {})")
  have "(\<lambda>st. R (fst st)) (mark_phase 0 (a, {}))"
    by (rule mark_phase_rule [where P = "\<lambda>st. R (fst st)" and Qm = Qm and Qs = Qs])
       (use R mine safe km ks in auto)
  then have R1: "R a1" using m by simp
  obtain kb n where k: "add_new (new_sentences (knowledge a1)) (knowledge a1, 0) = (kb, n)"
    by (cases "add_new (new_sentences (knowledge a1)) (knowledge a1, 0)")
  have "set kb = set (knowledge a1) \<union> set (new_sentences (knowledge a1))"
    using set_add_new [of "new_sentences (knowledge a1)" "(knowledge a1, 0)"] k by simp
  from new [OF R1 this] show ?thesis by (simp add: closure_pass_def m k)
qed

lemma closure_loop_rule:
  assumes ret: "closure_loop a = Some a'" and R: "R a"
    and mine: "\<And>c a. R a \<Longrightarrow> Qm c \<Longrightarrow> R (mark_mine c a)"
    and safe: "\<And>c a. R a \<Longrightarrow> Qs c \<Longrightarrow> R (mark_safe c a)"
    and km: "\<And>a s c. R a \<Longrightarrow> s \<in> set (knowledge a) \<Longrightarrow> finite (cells s) \<Longrightarrow>
               c \<in> cells s \<Longrightarrow> int (card (cells s)) = count s \<Longrightarrow> Qm c"
    and ks: "\<And>a s c. R a \<Longrightarrow> s \<in> set (knowledge a) \<Longrightarrow> finite (cells s) \<Longrightarrow>
               c \<in> cells s \<Longrightarrow> count s = 0 \<Longrightarrow> Qs c"
    and new: "\<And>a kb. R a \<Longrightarrow> set kb = set (knowledge a) \<union> set (new_sentences (knowledge a))
               \<Longrightarrow> R (a\<lparr>knowledge := kb\<rparr>)"
  shows "R a'"
proof -
  have step: "R (fst (closure_pass b))" if "R b" for b
    by (rule closure_pass_rule [where R = R and Qm = Qm and Qs = Qs, OF that mine safe km ks new])
  have "R a \<longrightarrow> R a'"
  proof (rule closure_loop.raw_induct [where P = "\<lambda>x y. R x \<longrightarrow> R y", OF _ ret])
    fix f b b'
    assume IH: "\<And>x y. f x = Some y \<Longrightarrow> R x \<longrightarrow> R y"
      and eq: "(case closure_pass b of (a', finished) \<Rightarrow>
                  if finished then Some a' else f a') = Some b'"
    show "R b \<longrightarrow> R b'"
    proof
      assume Rb: "R b"
      obtain b1 fin where p: "closure_pass b = (b1, fin)" by (cases "closure_pass b")
      have R1: "R b1" using step [OF Rb] p by simp
      show "R b'"
      proof (cases fin)
        case True
        with eq p R1 show ?thesis by simp
      next
        case False
        with eq p have "f b1 = Some b'" by simp
        from IH [OF this] R1 show ?thesis by simp
      qed
    qed
  qed
  with R show ?thesis by simp
qed

section \<open>Tidying the knowledge base\<close>

lemma count_empty_fold:
  "fold (\<lambda>s tracker. if card (cells s) = 0 then tracker + 1 else tracker) kb (t :: int)
     = t + int (empties kb)"
  by (induction kb arbitrary: t) (auto simp: empties_def)

lemma count_empty_eq: "count_empty kb = int (empties kb)"
  by (simp add: count_empty_def count_empty_fold)

lemma filter_remove1_other: "\<not> P x \<Longrightarrow> filter P (remove1 x xs) = filter P xs"
  by (induction xs) auto

lemma length_filter_remove1:
  "P x \<Longrightarrow> x \<in> set xs \<Longrightarrow> Suc (length (filter P (remove1 x xs))) = length (filter P xs)"
  by (induction xs) auto

lemma nonempty_remove1:
  "card (cells x) = 0 \<Longrightarrow> nonempty (remove1 x kb) = nonempty kb"
  by (simp add: nonempty_def filter_remove1_other)

lemma empties_remove1:
  "card (cells x) = 0 \<Longrightarrow> x \<in> set kb \<Longrightarrow> Suc (empties (remove1 x kb)) = empties kb"
  unfolding empties_def by (rule length_filter_remove1)

lemma remove_pass_keeps:
  "nonempty (fst (remove_pass i kb t)) = nonempty kb
   \<and> empties (fst (remove_pass i kb t)) \<le> empties kb
   \<and> snd (remove_pass i kb t) + int (empties kb) = t + int (empties (fst (remove_pass i kb t)))"
proof (induction i kb t rule: remove_pass.induct)
  case (1 i kb t)
  show ?case
  proof (cases "i < length kb")
    case False
    then show ?thesis by (simp add: remove_pass.simps [of i kb t])
  next
    case True
    show ?thesis
    proof (cases "card (cells (kb ! i)) = 0")
      case False
      with True "1.IH"(2) show ?thesis by (simp add: remove_pass.simps [of i kb t])
    next
      case e: True
      have "kb ! i \<in> set kb" using True by simp
      from empties_remove1 [OF e this] nonempty_remove1 [OF e, of kb] "1.IH"(1) [OF True e]
      show ?thesis using True e by (simp add: remove_pass.simps [of i kb t])
    qed
  qed
qed

lemma remove_pass_none_removed:
  assumes "empties (fst (remove_pass i kb t)) = empties kb" "i \<le> j" "j < length kb"
  shows "card (cells (kb ! j)) \<noteq> 0"
  using assms
proof (induction i kb t rule: remove_pass.induct)
  case (1 i kb t)
  have i: "i < length kb" using "1.prems" by simp
  show ?case
  proof (cases "card (cells (kb ! i)) = 0")
    case e: True
    have "kb ! i \<in> set kb" using i by simp
    from empties_remove1 [OF e this]
      remove_pass_keeps [of "Suc i" "remove1 (kb ! i) kb" "t + (- 1)"]
    have "empties (fst (remove_pass i kb t)) < empties kb"
      using i e by (simp add: remove_pass.simps [of i kb t])
    with "1.prems"(1) show ?thesis by simp
  next
    case False
    show ?thesis
    proof (cases "i = j")
      case True
      with False show ?thesis by simp
    next
      case ne: False
      have "empties (fst (remove_pass (Suc i) kb t)) = empties kb"
        using "1.prems"(1) i False by (simp add: remove_pass.simps [of i kb t])
      from "1.IH"(2) [OF i False this] ne "1.prems" show ?thesis by simp
    qed
  qed
qed

lemma remove_pass_progress:
  assumes "0 < empties kb"
  shows "empties (fst (remove_pass 0 kb t)) < empties kb"
proof (rule ccontr)
  assume "\<not> ?thesis"
  with remove_pass_keeps [of 0 kb t]
  have eq: "empties (fst (remove_pass 0 kb t)) = empties kb" by simp
  have "\<forall>s \<in> set kb. card (cells s) \<noteq> 0"
    using remove_pass_none_removed [OF eq] by (auto simp: in_set_conv_nth)
  then have "empties kb = 0" by (simp add: empties_def)
  with assms show False by simp
qed

lemma remove_loop_filter:
  "tracker = int (empties kb) \<Longrightarrow> remove_loop kb tracker = Some (nonempty kb)"
proof (induction "empties kb" arbitrary: kb tracker rule: less_induct)
  case less
  show ?case
  proof (cases "empties kb = 0")
    case True
    then have "nonempty kb = kb" by (simp add: empties_def nonempty_def filter_empty_conv)
    with True less.prems show ?thesis by (subst remove_loop.simps) simp
  next
    case False
    obtain kb' t' where p: "remove_pass 0 kb tracker = (kb', t')"
      by (cases "remove_pass 0 kb tracker")
    have lt: "empties kb' < empties kb" using remove_pass_progress [of kb tracker] False p by simp
    have t': "t' = int (empties kb')" and ne: "nonempty kb' = nonempty kb"
      using remove_pass_keeps [of 0 kb tracker] p less.prems by simp_all
    from less.hyps [OF lt t'] ne False less.prems p
    show ?thesis by (subst remove_loop.simps) simp
  qed
qed

lemma remove_loop_returns:
  "remove_loop kb (count_empty kb) = Some (nonempty kb)"
  by (rule remove_loop_filter) (rule count_empty_eq)

subsection \<open>Duplicates\<close>

lemma remove_duplicates_snoc:
  "remove_duplicates (kb @ [s]) =
     (if s \<notin> set (remove_duplicates kb) then remove_duplicates kb @ [s]
      else remove_duplicates kb)"
  by (simp add: remove_duplicates_def)

lemma remove_duplicates_Nil [simp]: "remove_duplicates [] = []"
  by (simp add: remove_duplicates_def)

lemma set_remove_duplicates [simp]: "set (remove_duplicates kb) = set kb"
  by (induction kb rule: rev_induct) (auto simp: remove_duplicates_snoc)

lemma distinct_remove_duplicates [simp]: "distinct (remove_duplicates kb)"
  by (induction kb rule: rev_induct) (auto simp: remove_duplicates_snoc)

lemma first_index_less: "s \<in> set kb \<Longrightarrow> first_index kb s < length kb"
  by (induction kb) (auto simp: first_index_def)

lemma first_index_snoc_old: "s \<in> set kb \<Longrightarrow> first_index (kb @ [t]) s = first_index kb s"
  by (induction kb) (auto simp: first_index_def)

lemma first_index_snoc_new: "s \<notin> set kb \<Longrightarrow> first_index (kb @ [s]) s = length kb"
  by (induction kb) (auto simp: first_index_def)

lemma remove_duplicates_order:
  "sorted_wrt (\<lambda>s t. first_index kb s < first_index kb t) (remove_duplicates kb)"
proof (induction kb rule: rev_induct)
  case Nil
  then show ?case by simp
next
  case (snoc x kb)
  have old: "sorted_wrt (\<lambda>s t. first_index (kb @ [x]) s < first_index (kb @ [x]) t)
               (remove_duplicates kb)"
    using snoc.IH
    by (rule sorted_wrt_mono_rel [rotated]) (simp add: first_index_snoc_old)
  show ?case
  proof (cases "x \<in> set kb")
    case True
    with old show ?thesis by (simp add: remove_duplicates_snoc)
  next
    case False
    then show ?thesis using old
      by (auto simp: remove_duplicates_snoc sorted_wrt_append first_index_snoc_old
            first_index_snoc_new first_index_less)
  qed
qed

section \<open>Neighbourhoods and the count of the board\<close>

lemma concat_if_filter:
  "concat (map (\<lambda>j. if P (i, j) then [(i, j)] else []) ys) = filter P (map (Pair i) ys)"
  by (induction ys) auto

lemma around_product:
  "around c = filter (\<lambda>p. p \<noteq> c)
     (List.product [fst c - 1..fst c + 1] [snd c - 1..snd c + 1])"
proof -
  have "concat (map (\<lambda>i. concat (map (\<lambda>j. if (i, j) \<noteq> c then [(i, j)] else []) ys)) xs)
          = filter (\<lambda>p. p \<noteq> c) (List.product xs ys)" for xs ys :: "int list"
    by (induction xs) (simp_all add: concat_if_filter [where P = "\<lambda>p. p \<noteq> c"])
  then show ?thesis by (simp add: around_def)
qed

lemma distinct_around [simp]: "distinct (around c)"
  by (simp add: around_product distinct_product)

lemma fold_insert_if:
  "fold (\<lambda>(i, j) S. if B (i, j) then insert (i, j) S else S) xs S0 = S0 \<union> {p \<in> set xs. B p}"
  by (induction xs arbitrary: S0) auto

lemma surrounding_cells_eq:
  "surrounding_cells a c = {p \<in> set (around c). in_bounds (height a) (width a) p}"
proof -
  have "(\<lambda>(i, j) S. if 0 \<le> i \<and> i < height a \<and> 0 \<le> j \<and> j < width a
                      then insert (i, j) S else S)
      = (\<lambda>(i, j) S. if in_bounds (height a) (width a) (i, j) then insert (i, j) S else S)"
    by (simp add: fun_eq_iff in_bounds_def)
  then have "surrounding_cells a c
      = fold (\<lambda>(i, j) S. if in_bounds (height a) (width a) (i, j) then insert (i, j) S else S)
          (around c) {}"
    by (simp only: surrounding_cells_def)
  then show ?thesis by (simp only: fold_insert_if) simp
qed

lemma finite_surrounding_cells [simp]: "finite (surrounding_cells a c)"
  by (simp add: surrounding_cells_eq)

lemma fold_count_if:
  "distinct xs \<Longrightarrow>
   fold (\<lambda>(i, j) n. if B (i, j) then (if C (i, j) then n + 1 else n) else n) xs (k :: int)
     = k + int (card {p \<in> set xs. B p \<and> C p})"
proof (induction xs arbitrary: k)
  case Nil
  then show ?case by simp
next
  case (Cons x xs)
  obtain i j where x: "x = (i, j)" by (cases x)
  have fin: "finite {p \<in> set xs. B p \<and> C p}" by simp
  have notin: "x \<notin> {p \<in> set xs. B p \<and> C p}" using Cons.prems by simp
  show ?case
  proof (cases "B x \<and> C x")
    case True
    then have "{p \<in> set (x # xs). B p \<and> C p} = insert x {p \<in> set xs. B p \<and> C p}" by auto
    then have "card {p \<in> set (x # xs). B p \<and> C p} = Suc (card {p \<in> set xs. B p \<and> C p})"
      using fin notin by simp
    with True Cons show ?thesis by (simp add: x)
  next
    case False
    then have "{p \<in> set (x # xs). B p \<and> C p} = {p \<in> set xs. B p \<and> C p}" by auto
    with False Cons show ?thesis by (auto simp: x)
  qed
qed

lemma nearby_mines_card:
  assumes "height a = board_height g" "width a = board_width g"
  shows "nearby_mines g c = int (card (surrounding_cells a c \<inter> true_mines g))"
proof -
  let ?B = "in_bounds (board_height g) (board_width g)"
  have "(\<lambda>(i, j) n. if 0 \<le> i \<and> i < board_height g \<and> 0 \<le> j \<and> j < board_width g
                      then (if board g ! nat i ! nat j then n + 1 else n) else n)
      = (\<lambda>(i, j) n. if ?B (i, j) then (if is_mine g (i, j) then n + (1::int) else n) else n)"
    by (auto simp: fun_eq_iff in_bounds_def is_mine_def)
  then have "nearby_mines g c
      = fold (\<lambda>(i, j) n. if ?B (i, j) then (if is_mine g (i, j) then n + 1 else n) else n)
          (around c) 0"
    by (simp only: nearby_mines_def)
  also have "\<dots> = 0 + int (card {p \<in> set (around c). ?B p \<and> is_mine g p})"
    by (rule fold_count_if) simp
  also have "\<dots> = int (card {p \<in> set (around c). ?B p \<and> is_mine g p})" by simp
  also have "{p \<in> set (around c). ?B p \<and> is_mine g p} = surrounding_cells a c \<inter> true_mines g"
    using assms by (auto simp: surrounding_cells_eq true_mines_def)
  finally show ?thesis .
qed

section \<open>The sentence of the neighbourhood\<close>

lemma sentence_loop_Cons:
  "sentence_loop a (c # cs) sc n =
     (if c \<in> mines a
      then (if c \<in> sc \<and> c \<notin> safes a then sentence_loop a cs (sc - {c}) (n + (- 1))
            else Inl KeyError)
      else (if c \<in> safes a
            then (if c \<in> sc then sentence_loop a cs (sc - {c}) n else Inl KeyError)
            else sentence_loop a cs sc n))"
  by (simp add: set_remove_def)

lemma sentence_loop_cells:
  "sentence_loop a cs sc n = Inr s \<Longrightarrow> cells s = sc - (set cs \<inter> (mines a \<union> safes a))"
proof (induction cs arbitrary: sc n)
  case Nil
  then show ?case by auto
next
  case (Cons c cs)
  note eq = Cons.prems [unfolded sentence_loop_Cons]
  show ?case
  proof (cases "c \<in> mines a")
    case m: True
    with eq have c: "c \<in> sc" "c \<notin> safes a" by (simp_all split: if_splits)
    with eq m have "sentence_loop a cs (sc - {c}) (n + (- 1)) = Inr s" by simp
    from Cons.IH [OF this] have "cells s = sc - {c} - (set cs \<inter> (mines a \<union> safes a))" .
    also have "\<dots> = sc - (set (c # cs) \<inter> (mines a \<union> safes a))" using m by auto
    finally show ?thesis .
  next
    case m: False
    show ?thesis
    proof (cases "c \<in> safes a")
      case True
      with eq m have c: "c \<in> sc" by (simp split: if_splits)
      with eq m True have "sentence_loop a cs (sc - {c}) n = Inr s" by simp
      from Cons.IH [OF this] have "cells s = sc - {c} - (set cs \<inter> (mines a \<union> safes a))" .
      also have "\<dots> = sc - (set (c # cs) \<inter> (mines a \<union> safes a))" using True by auto
      finally show ?thesis .
    next
      case False
      with eq m have "sentence_loop a cs sc n = Inr s" by simp
      from Cons.IH [OF this] have "cells s = sc - (set cs \<inter> (mines a \<union> safes a))" .
      also have "\<dots> = sc - (set (c # cs) \<inter> (mines a \<union> safes a))" using m False by auto
      finally show ?thesis .
    qed
  qed
qed

lemma sentence_loop_returns:
  assumes "distinct cs" "set cs \<subseteq> sc" "set cs \<inter> mines a \<inter> safes a = {}"
  shows "sentence_loop a cs sc n =
     Inr \<lparr>cells = sc - (set cs \<inter> (mines a \<union> safes a)),
          count = n - int (card (set cs \<inter> mines a))\<rparr>"
  using assms
proof (induction cs arbitrary: sc n)
  case Nil
  then show ?case by simp
next
  case (Cons c cs)
  have c: "c \<in> sc" "c \<notin> set cs" and cs: "distinct cs" "set cs \<inter> mines a \<inter> safes a = {}"
    using Cons.prems by auto
  have sub: "set cs \<subseteq> sc - {c}" "set cs \<subseteq> sc" using Cons.prems c by auto
  show ?case
  proof (cases "c \<in> mines a")
    case m: True
    then have ns: "c \<notin> safes a" using Cons.prems(3) by auto
    have "set (c # cs) \<inter> mines a = insert c (set cs \<inter> mines a)" using m by auto
    then have card: "int (card (set (c # cs) \<inter> mines a)) = int (card (set cs \<inter> mines a)) + 1"
      using c by simp
    have cl: "sc - {c} - (set cs \<inter> (mines a \<union> safes a))
               = sc - (set (c # cs) \<inter> (mines a \<union> safes a))"
      using m by auto
    have "sentence_loop a (c # cs) sc n = sentence_loop a cs (sc - {c}) (n + (- 1))"
      using m ns c by (simp only: sentence_loop_Cons if_True simp_thms)
    also note Cons.IH [OF cs(1) sub(1) cs(2), of "n + (- 1)"]
    finally show ?thesis by (simp only: cl card) simp
  next
    case m: False
    have card: "set (c # cs) \<inter> mines a = set cs \<inter> mines a" using m by auto
    show ?thesis
    proof (cases "c \<in> safes a")
      case True
      have cl: "sc - {c} - (set cs \<inter> (mines a \<union> safes a))
                 = sc - (set (c # cs) \<inter> (mines a \<union> safes a))"
        using True by auto
      have "sentence_loop a (c # cs) sc n = sentence_loop a cs (sc - {c}) n"
        using m True c by (simp only: sentence_loop_Cons if_True if_False simp_thms)
      also note Cons.IH [OF cs(1) sub(1) cs(2), of n]
      finally show ?thesis by (simp only: cl card)
    next
      case False
      have cl: "sc - (set cs \<inter> (mines a \<union> safes a))
                 = sc - (set (c # cs) \<inter> (mines a \<union> safes a))"
        using m False by auto
      have "sentence_loop a (c # cs) sc n = sentence_loop a cs sc n"
        using m False by (simp only: sentence_loop_Cons if_True if_False simp_thms)
      also note Cons.IH [OF cs(1) sub(2) cs(2), of n]
      finally show ?thesis by (simp only: cl card)
    qed
  qed
qed

lemma new_sentence_cells:
  "new_sentence a c n = Inr s \<Longrightarrow> cells s = surrounding_cells a c - (mines a \<union> safes a)"
  unfolding new_sentence_def by (drule sentence_loop_cells) auto

lemma new_sentence_returns:
  assumes "mines a \<inter> safes a = {}"
  shows "new_sentence a c n =
     Inr \<lparr>cells = surrounding_cells a c - (mines a \<union> safes a),
          count = n - int (card (surrounding_cells a c \<inter> mines a))\<rparr>"
proof -
  let ?N = "surrounding_cells a c"
  have "sentence_loop a (elems ?N) ?N n =
     Inr \<lparr>cells = ?N - (set (elems ?N) \<inter> (mines a \<union> safes a)),
          count = n - int (card (set (elems ?N) \<inter> mines a))\<rparr>"
    by (rule sentence_loop_returns) (use assms in auto)
  moreover have "?N - (?N \<inter> (mines a \<union> safes a)) = ?N - (mines a \<union> safes a)" by auto
  ultimately show ?thesis by (simp add: new_sentence_def)
qed

section \<open>Invariants of the agent\<close>

lemma cells_Sentence_mark_mine [simp]: "cells (Sentence_mark_mine c s) = cells s - {c}"
  by (simp add: Sentence_mark_mine_def)

lemma cells_Sentence_mark_safe [simp]: "cells (Sentence_mark_safe c s) = cells s - {c}"
  by (simp add: Sentence_mark_safe_def)

lemma count_Sentence_mark_mine:
  "count (Sentence_mark_mine c s) = (if c \<in> cells s then count s - 1 else count s)"
  by (simp add: Sentence_mark_mine_def)

lemma count_Sentence_mark_safe [simp]: "count (Sentence_mark_safe c s) = count s"
  by (simp add: Sentence_mark_safe_def)

lemma mark_mine_fields [simp]:
  "mines (mark_mine c a) = insert c (mines a)" "safes (mark_mine c a) = safes a"
  "moves_made (mark_mine c a) = moves_made a" "height (mark_mine c a) = height a"
  "width (mark_mine c a) = width a"
  "knowledge (mark_mine c a) = map (Sentence_mark_mine c) (knowledge a)"
  by (simp_all add: mark_mine_def)

lemma mark_safe_fields [simp]:
  "mines (mark_safe c a) = mines a" "safes (mark_safe c a) = insert c (safes a)"
  "moves_made (mark_safe c a) = moves_made a" "height (mark_safe c a) = height a"
  "width (mark_safe c a) = width a"
  "knowledge (mark_safe c a) = map (Sentence_mark_safe c) (knowledge a)"
  by (simp_all add: mark_safe_def)

lemma observe_fields [simp]:
  "mines (observe c a) = mines a" "safes (observe c a) = insert c (safes a)"
  "moves_made (observe c a) = insert c (moves_made a)" "height (observe c a) = height a"
  "width (observe c a) = width a"
  "knowledge (observe c a) = map (Sentence_mark_safe c) (knowledge a)"
  by (simp_all add: observe_def)

lemma new_sentences_E:
  assumes "s \<in> set (new_sentences kb)"
  obtains s1 s2 where "s1 \<in> set kb" "s2 \<in> set kb" "cells s1 \<subset> cells s2"
    "s = \<lparr>cells = cells s2 - cells s1, count = count s2 - count s1\<rparr>"
  using assms by (auto simp: new_sentences_def split: if_splits)

subsection \<open>Finite sentences\<close>

lemma finite_kb_mark_mine: "finite_kb a \<Longrightarrow> finite_kb (mark_mine c a)"
  by (simp add: finite_kb_def list_all_iff)

lemma finite_kb_mark_safe: "finite_kb a \<Longrightarrow> finite_kb (mark_safe c a)"
  by (simp add: finite_kb_def list_all_iff)

lemma finite_kb_new:
  assumes "finite_kb a" "set kb = set (knowledge a) \<union> set (new_sentences (knowledge a))"
  shows "finite_kb (a\<lparr>knowledge := kb\<rparr>)"
  using assms by (auto simp: finite_kb_def list_all_iff set_new_sentences)

lemma finite_kb_closure_loop:
  assumes "closure_loop a = Some a'" "finite_kb a"
  shows "finite_kb a'"
  by (rule closure_loop_rule [where R = finite_kb and Qm = "\<lambda>c. True" and Qs = "\<lambda>c. True",
        OF assms finite_kb_mark_mine finite_kb_mark_safe TrueI TrueI finite_kb_new])

subsection \<open>Sentences about unresolved cells only\<close>

lemma unresolved_kb_mark_mine: "unresolved_kb a \<Longrightarrow> unresolved_kb (mark_mine c a)"
  by (auto simp: unresolved_kb_def list_all_iff)

lemma unresolved_kb_mark_safe: "unresolved_kb a \<Longrightarrow> unresolved_kb (mark_safe c a)"
  by (auto simp: unresolved_kb_def list_all_iff)

lemma unresolved_kb_new:
  assumes "unresolved_kb a" "set kb = set (knowledge a) \<union> set (new_sentences (knowledge a))"
  shows "unresolved_kb (a\<lparr>knowledge := kb\<rparr>)"
proof -
  have "cells s \<inter> (mines a \<union> safes a) = {}" if "s \<in> set kb" for s
  proof (cases "s \<in> set (knowledge a)")
    case True
    with assms(1) show ?thesis by (simp add: unresolved_kb_def list_all_iff)
  next
    case False
    with that assms(2) have "s \<in> set (new_sentences (knowledge a))" by simp
    then obtain s1 s2 where "s1 \<in> set (knowledge a)" and s2: "s2 \<in> set (knowledge a)"
      and "cells s1 \<subset> cells s2"
      and s: "s = \<lparr>cells = cells s2 - cells s1, count = count s2 - count s1\<rparr>"
      by (rule new_sentences_E)
    have "cells s2 \<inter> (mines a \<union> safes a) = {}"
      using assms(1) s2 by (simp add: unresolved_kb_def list_all_iff)
    moreover have "cells s \<subseteq> cells s2" by (simp add: s)
    ultimately show ?thesis by blast
  qed
  then show ?thesis by (simp add: unresolved_kb_def list_all_iff)
qed

lemma unresolved_kb_closure_loop:
  assumes "closure_loop a = Some a'" "unresolved_kb a"
  shows "unresolved_kb a'"
  by (rule closure_loop_rule [where R = unresolved_kb and Qm = "\<lambda>c. True" and Qs = "\<lambda>c. True",
        OF assms unresolved_kb_mark_mine unresolved_kb_mark_safe TrueI TrueI unresolved_kb_new])

subsection \<open>Growing sets\<close>

lemma grows_refl [simp]: "grows a a"
  by (simp add: grows_def)

lemma grows_closure_loop:
  assumes "closure_loop a = Some a'"
  shows "grows a a'"
proof (rule closure_loop_rule [where R = "grows a" and Qm = "\<lambda>c. True" and Qs = "\<lambda>c. True",
        OF assms])
  show "grows a a" by simp
qed (auto simp: grows_def)

subsection \<open>Sentences that are true of the board\<close>

lemma card_Int_remove_mine:
  assumes "finite S" "c \<in> S" "c \<in> M"
  shows "int (card ((S - {c}) \<inter> M)) = int (card (S \<inter> M)) - 1"
proof -
  have eq: "(S - {c}) \<inter> M = S \<inter> M - {c}" by auto
  have "finite (S \<inter> M)" "c \<in> S \<inter> M" using assms by simp_all
  then have "card (S \<inter> M) = Suc (card (S \<inter> M - {c}))"
    by (rule card.remove)
  then show ?thesis by (simp only: eq)
qed

lemma Int_remove_safe: "c \<notin> M \<Longrightarrow> (S - {c}) \<inter> M = S \<inter> M"
  by auto

lemma sound_mark_mine:
  assumes "sound M a" "c \<in> M"
  shows "sound M (mark_mine c a)"
proof -
  have "finite (cells (Sentence_mark_mine c s))
      \<and> count (Sentence_mark_mine c s) = int (card (cells (Sentence_mark_mine c s) \<inter> M))"
    if "s \<in> set (knowledge a)" for s
  proof -
    have s: "finite (cells s)" "count s = int (card (cells s \<inter> M))"
      using assms(1) that by (simp_all add: sound_def list_all_iff)
    show ?thesis
    proof (cases "c \<in> cells s")
      case True
      from card_Int_remove_mine [OF s(1) True assms(2)] s True
      show ?thesis by (simp add: count_Sentence_mark_mine)
    next
      case False
      then have "cells s - {c} = cells s" by auto
      with s False show ?thesis by (simp add: count_Sentence_mark_mine)
    qed
  qed
  moreover have "mines a \<subseteq> M" "safes a \<inter> M = {}"
    using assms(1) by (simp_all add: sound_def)
  ultimately show ?thesis using assms(2)
    by (simp add: sound_def list_all_iff del: cells_Sentence_mark_mine)
qed

lemma sound_mark_safe:
  assumes "sound M a" "c \<notin> M"
  shows "sound M (mark_safe c a)"
proof -
  have "finite (cells (Sentence_mark_safe c s))
      \<and> count (Sentence_mark_safe c s) = int (card (cells (Sentence_mark_safe c s) \<inter> M))"
    if "s \<in> set (knowledge a)" for s
  proof -
    have s: "finite (cells s)" "count s = int (card (cells s \<inter> M))"
      using assms(1) that by (simp_all add: sound_def list_all_iff)
    then show ?thesis by (simp add: Int_remove_safe [OF assms(2)])
  qed
  moreover have "mines a \<subseteq> M" "safes a \<inter> M = {}"
    using assms(1) by (simp_all add: sound_def)
  ultimately show ?thesis using assms(2)
    by (simp add: sound_def list_all_iff del: cells_Sentence_mark_safe count_Sentence_mark_safe)
qed

lemma sound_known_mine:
  assumes "sound M a" "s \<in> set (knowledge a)" "finite (cells s)" "c \<in> cells s"
    "int (card (cells s)) = count s"
  shows "c \<in> M"
proof -
  have "card (cells s \<inter> M) = card (cells s)"
    using assms(1,2,5) by (simp add: sound_def list_all_iff)
  then have "cells s \<inter> M = cells s"
    using assms(3) by (intro card_subset_eq) auto
  with assms(4) show ?thesis by auto
qed

lemma sound_known_safe:
  assumes "sound M a" "s \<in> set (knowledge a)" "finite (cells s)" "c \<in> cells s" "count s = 0"
  shows "c \<notin> M"
proof -
  have "card (cells s \<inter> M) = 0"
    using assms(1,2,5) by (simp add: sound_def list_all_iff)
  then have "cells s \<inter> M = {}" using assms(3) by simp
  with assms(4) show ?thesis by auto
qed

lemma sound_derived:
  assumes "finite (cells s2)" "cells s1 \<subset> cells s2"
    "count s1 = int (card (cells s1 \<inter> M))" "count s2 = int (card (cells s2 \<inter> M))"
  shows "count s2 - count s1 = int (card ((cells s2 - cells s1) \<inter> M))"
proof -
  have "(cells s2 - cells s1) \<inter> M = cells s2 \<inter> M - cells s1 \<inter> M" by auto
  moreover have "cells s1 \<inter> M \<subseteq> cells s2 \<inter> M" using assms(2) by auto
  moreover have "finite (cells s2 \<inter> M)" "finite (cells s1 \<inter> M)"
    using assms(1,2) by (auto intro: finite_subset)
  ultimately have "card ((cells s2 - cells s1) \<inter> M) = card (cells s2 \<inter> M) - card (cells s1 \<inter> M)"
    and "card (cells s1 \<inter> M) \<le> card (cells s2 \<inter> M)"
    by (simp_all add: card_Diff_subset card_mono)
  with assms(3,4) show ?thesis by simp
qed

lemma sound_new:
  assumes "sound M a" "set kb = set (knowledge a) \<union> set (new_sentences (knowledge a))"
  shows "sound M (a\<lparr>knowledge := kb\<rparr>)"
proof -
  have "finite (cells s) \<and> count s = int (card (cells s \<inter> M))" if "s \<in> set kb" for s
  proof (cases "s \<in> set (knowledge a)")
    case True
    with assms(1) show ?thesis by (simp add: sound_def list_all_iff)
  next
    case False
    with that assms(2) have "s \<in> set (new_sentences (knowledge a))" by simp
    then obtain s1 s2 where s: "s1 \<in> set (knowledge a)" "s2 \<in> set (knowledge a)"
      "cells s1 \<subset> cells s2" "s = \<lparr>cells = cells s2 - cells s1, count = count s2 - count s1\<rparr>"
      by (rule new_sentences_E)
    have "finite (cells s2)" "count s1 = int (card (cells s1 \<inter> M))"
      "count s2 = int (card (cells s2 \<inter> M))"
      using assms(1) s(1,2) by (simp_all add: sound_def list_all_iff)
    from sound_derived [OF this(1) s(3) this(2,3)] this(1) show ?thesis by (simp add: s(4))
  qed
  with assms(1) show ?thesis by (simp add: sound_def list_all_iff)
qed

lemma sound_closure_pass: "sound M a \<Longrightarrow> sound M (fst (closure_pass a))"
  by (rule closure_pass_rule [where R = "sound M" and Qm = "\<lambda>c. c \<in> M" and Qs = "\<lambda>c. c \<notin> M",
        OF _ sound_mark_mine sound_mark_safe sound_known_mine sound_known_safe sound_new])

lemma sound_closure_loop:
  assumes "closure_loop a = Some a'" "sound M a"
  shows "sound M a'"
  by (rule closure_loop_rule [where R = "sound M" and Qm = "\<lambda>c. c \<in> M" and Qs = "\<lambda>c. c \<notin> M",
        OF assms sound_mark_mine sound_mark_safe sound_known_mine sound_known_safe sound_new])

section \<open>The loop of step 4 ends\<close>

lemma occurring_mark_mine [simp]: "occurring (mark_mine c a) = occurring a - {c}"
  by (auto simp: occurring_def)

lemma occurring_mark_safe [simp]: "occurring (mark_safe c a) = occurring a - {c}"
  by (auto simp: occurring_def)

lemma occurring_new:
  assumes "set kb = set (knowledge a) \<union> set (new_sentences (knowledge a))"
  shows "occurring (a\<lparr>knowledge := kb\<rparr>) = occurring a"
proof -
  have "cells s \<subseteq> occurring a" if "s \<in> set (new_sentences (knowledge a))" for s
  proof -
    from that obtain s1 s2 where "s1 \<in> set (knowledge a)" "s2 \<in> set (knowledge a)"
      "cells s1 \<subset> cells s2" "s = \<lparr>cells = cells s2 - cells s1, count = count s2 - count s1\<rparr>"
      by (rule new_sentences_E)
    then show ?thesis by (auto simp: occurring_def)
  qed
  then have "\<Union> (cells ` set (new_sentences (knowledge a))) \<subseteq> occurring a" by blast
  then show ?thesis using assms by (auto simp: occurring_def)
qed

lemma finite_occurring: "finite_kb a \<Longrightarrow> finite (occurring a)"
  by (simp add: occurring_def finite_kb_def list_all_iff)

lemma sound_finite_kb: "sound M a \<Longrightarrow> finite_kb a"
  by (simp add: sound_def finite_kb_def list_all_iff)

text \<open>What a turn of the marking loop does to the occurring cells.\<close>

lemma mark_phase_occurring:
  assumes "occurring (fst st) \<subseteq> U" "snd st \<subseteq> U - occurring (fst st)"
  shows "occurring (fst (mark_phase i st)) \<subseteq> U
       \<and> snd (mark_phase i st) \<subseteq> U - occurring (fst (mark_phase i st))"
proof (rule mark_phase_rule
    [where P = "\<lambda>st. occurring (fst st) \<subseteq> U \<and> snd st \<subseteq> U - occurring (fst st)"
       and Qm = "\<lambda>c. c \<in> U" and Qs = "\<lambda>c. c \<in> U"])
  show "occurring (fst st) \<subseteq> U \<and> snd st \<subseteq> U - occurring (fst st)" using assms by simp
next
  fix c st assume "occurring (fst st) \<subseteq> U \<and> snd st \<subseteq> U - occurring (fst st)" "c \<in> U"
  then show "occurring (fst (mark_mine c (fst st), insert c (snd st))) \<subseteq> U \<and>
       snd (mark_mine c (fst st), insert c (snd st))
         \<subseteq> U - occurring (fst (mark_mine c (fst st), insert c (snd st)))"
    by auto
next
  fix c st assume "occurring (fst st) \<subseteq> U \<and> snd st \<subseteq> U - occurring (fst st)" "c \<in> U"
  then show "occurring (fst (mark_safe c (fst st), insert c (snd st))) \<subseteq> U \<and>
       snd (mark_safe c (fst st), insert c (snd st))
         \<subseteq> U - occurring (fst (mark_safe c (fst st), insert c (snd st)))"
    by auto
next
  fix st :: "ai \<times> cell set" and s c
  assume "occurring (fst st) \<subseteq> U \<and> snd st \<subseteq> U - occurring (fst st)"
    "s \<in> set (knowledge (fst st))" "c \<in> cells s"
  then show "c \<in> U" by (auto simp: occurring_def)
next
  fix st :: "ai \<times> cell set" and s c
  assume "occurring (fst st) \<subseteq> U \<and> snd st \<subseteq> U - occurring (fst st)"
    "s \<in> set (knowledge (fst st))" "c \<in> cells s"
  then show "c \<in> U" by (auto simp: occurring_def)
qed

text \<open>A turn of the marking loop that marks no cell leaves the agent as it was.\<close>

lemma snd_mark_mines: "snd (mark_mines cs st) = snd st \<union> set cs"
  by (induction cs arbitrary: st) (auto simp: mark_mines_Cons)

lemma snd_mark_safes: "snd (mark_safes cs st) = snd st \<union> set cs"
  by (induction cs arbitrary: st) (auto simp: mark_safes_Cons)

lemma visit_no_change:
  assumes "snd (visit i st) = {}"
  shows "visit i st = st"
proof -
  let ?cs1 = "elems (known_mines (knowledge (fst st) ! i))"
  let ?st1 = "mark_mines ?cs1 st"
  let ?cs2 = "elems (known_safes (knowledge (fst ?st1) ! i))"
  have v: "visit i st = mark_safes ?cs2 ?st1" by (simp add: visit_def Let_def)
  from assms have "snd ?st1 \<union> set ?cs2 = {}" by (simp only: v snd_mark_safes)
  then have "set ?cs2 = {}" "snd st \<union> set ?cs1 = {}" by (simp_all only: snd_mark_mines) auto
  then have 1: "?cs1 = []" and 2: "?cs2 = []" by simp_all
  have "?st1 = st" by (simp only: 1 mark_mines_Nil)
  with 2 v show ?thesis by (simp only: mark_safes_Nil)
qed

lemma snd_visit_mono: "snd st \<subseteq> snd (visit i st)"
  by (simp add: visit_def Let_def snd_mark_safes snd_mark_mines le_supI1)

lemma snd_mark_phase_mono: "snd st \<subseteq> snd (mark_phase i st)"
proof (induction i st rule: mark_phase.induct)
  case (1 i st)
  show ?case
  proof (cases "i < length (knowledge (fst st))")
    case True
    with "1.IH" snd_visit_mono [of st i] show ?thesis
      by (simp add: mark_phase.simps [of i st])
  next
    case False
    then show ?thesis by (simp add: mark_phase.simps [of i st])
  qed
qed

lemma mark_phase_no_change:
  "snd (mark_phase i st) = {} \<Longrightarrow> mark_phase i st = st"
proof (induction i st rule: mark_phase.induct)
  case (1 i st)
  show ?case
  proof (cases "i < length (knowledge (fst st))")
    case True
    then have eq: "mark_phase i st = mark_phase (Suc i) (visit i st)"
      by (simp add: mark_phase.simps [of i st])
    with "1.prems" have e: "snd (mark_phase (Suc i) (visit i st)) = {}" by simp
    with snd_mark_phase_mono [of "visit i st" "Suc i"] have "snd (visit i st) = {}" by simp
    then have "visit i st = st" by (rule visit_no_change)
    with "1.IH" [OF True e] eq show ?thesis by simp
  next
    case False
    then show ?thesis by (simp add: mark_phase.simps [of i st])
  qed
qed


text \<open>
  A turn of the loop that does not leave it either removes an occurring cell from every
  sentence, or keeps the occurring cells and adds a sentence that was not there.
\<close>

lemma closure_pass_progress:
  assumes fin: "finite_kb a" and p: "closure_pass a = (a', finished)" and nf: "\<not> finished"
  shows "occurring a' \<subset> occurring a
       \<or> (occurring a' = occurring a \<and> set (knowledge a) \<subset> set (knowledge a'))"
proof -
  obtain a1 ch where m: "mark_phase 0 (a, {}) = (a1, ch)" by (cases "mark_phase 0 (a, {})")
  obtain kb n where k: "add_new (new_sentences (knowledge a1)) (knowledge a1, 0) = (kb, n)"
    by (cases "add_new (new_sentences (knowledge a1)) (knowledge a1, 0)")
  have a': "a' = a1\<lparr>knowledge := kb\<rparr>" and f: "finished = (card ch = 0 \<and> n = 0)"
    using p by (simp_all add: closure_pass_def m k)
  have kb: "set kb = set (knowledge a1) \<union> set (new_sentences (knowledge a1))"
    using set_add_new [of "new_sentences (knowledge a1)" "(knowledge a1, 0)"] k by simp
  have occ': "occurring a' = occurring a1" unfolding a' by (rule occurring_new [OF kb])
  have "occurring (fst (mark_phase 0 (a, {}))) \<subseteq> occurring a
       \<and> snd (mark_phase 0 (a, {})) \<subseteq> occurring a - occurring (fst (mark_phase 0 (a, {})))"
    by (rule mark_phase_occurring) simp_all
  then have occ1: "occurring a1 \<subseteq> occurring a" and ch: "ch \<subseteq> occurring a - occurring a1"
    by (simp_all add: m)
  show ?thesis
  proof (cases "ch = {}")
    case False
    then obtain c where "c \<in> ch" by blast
    with ch have "c \<in> occurring a" "c \<notin> occurring a1" by auto
    with occ1 have "occurring a1 \<subset> occurring a" by blast
    then show ?thesis by (simp add: occ')
  next
    case True
    then have "snd (mark_phase 0 (a, {})) = {}" by (simp add: m)
    then have "mark_phase 0 (a, {}) = (a, {})" by (rule mark_phase_no_change)
    then have a1: "a1 = a" using m by simp
    have "n \<noteq> 0" using nf f True by simp
    moreover have "0 \<le> n"
      using add_new_count [of "(knowledge a1, 0)" "new_sentences (knowledge a1)"] k by simp
    ultimately have "0 < n" by simp
    then obtain s where "s \<in> set (new_sentences (knowledge a1))" "s \<notin> set (knowledge a1)"
      using add_new_count [of "(knowledge a1, 0)" "new_sentences (knowledge a1)"] k by auto
    then have "set (knowledge a1) \<subset> set kb" using kb by blast
    then show ?thesis using occ' a1 a' by simp
  qed
qed

text \<open>Sentences that are true of one board and have the same cells are equal.\<close>

lemma sound_card_knowledge:
  assumes "sound M a"
  shows "card (set (knowledge a)) \<le> 2 ^ card (occurring a)"
proof -
  have fin: "finite (occurring a)" using assms by (intro finite_occurring sound_finite_kb)
  have "inj_on cells (set (knowledge a))"
  proof (rule inj_onI)
    fix s t assume "s \<in> set (knowledge a)" "t \<in> set (knowledge a)" "cells s = cells t"
    moreover from this assms have "count s = count t" by (simp add: sound_def list_all_iff)
    ultimately show "s = t" by simp
  qed
  then have "card (set (knowledge a)) = card (cells ` set (knowledge a))"
    by (simp add: card_image)
  also have "\<dots> \<le> card (Pow (occurring a))"
    by (rule card_mono) (use fin in \<open>auto simp: occurring_def\<close>)
  also have "\<dots> = 2 ^ card (occurring a)" using fin by (rule card_Pow)
  finally show ?thesis .
qed

lemma closure_pass_decreases:
  assumes s: "sound M a" and p: "closure_pass a = (a', finished)" and nf: "\<not> finished"
  shows "(closure_measure a', closure_measure a) \<in> less_than <*lex*> less_than"
proof -
  have s': "sound M a'" using sound_closure_pass [OF s] p by simp
  have fin: "finite (occurring a)" using s by (intro finite_occurring sound_finite_kb)
  from closure_pass_progress [OF sound_finite_kb [OF s] p nf]
  show ?thesis
  proof
    assume "occurring a' \<subset> occurring a"
    then have "card (occurring a') < card (occurring a)" using fin by (rule psubset_card_mono [rotated])
    then show ?thesis by (simp add: closure_measure_def)
  next
    assume h: "occurring a' = occurring a \<and> set (knowledge a) \<subset> set (knowledge a')"
    then have "card (set (knowledge a)) < card (set (knowledge a'))"
      by (intro psubset_card_mono) simp_all
    moreover have "card (set (knowledge a')) \<le> 2 ^ card (occurring a)"
      using sound_card_knowledge [OF s'] h by simp
    ultimately show ?thesis using h by (simp add: closure_measure_def)
  qed
qed

lemma closure_loop_returns:
  assumes "sound M a"
  shows "\<exists>a'. closure_loop a = Some a'"
proof -
  have "wf (inv_image (less_than <*lex*> less_than) closure_measure)"
    by (intro wf_inv_image wf_lex_prod wf_less_than)
  then show ?thesis using assms
  proof (induction a rule: wf_induct_rule)
    case (less a)
    obtain a1 finished where p: "closure_pass a = (a1, finished)" by (cases "closure_pass a")
    show ?case
    proof (cases finished)
      case True
      with p show ?thesis by (subst closure_loop.simps) simp
    next
      case False
      have "sound M a1" using sound_closure_pass [OF less.prems] p by simp
      moreover have "(a1, a) \<in> inv_image (less_than <*lex*> less_than) closure_measure"
        using closure_pass_decreases [OF less.prems p False] by simp
      ultimately obtain a' where "closure_loop a1 = Some a'" using less.IH by blast
      with p False show ?thesis by (subst closure_loop.simps) simp
    qed
  qed
qed

section \<open>add_knowledge as a whole\<close>

lemma nonempty_finite:
  "list_all (\<lambda>s. finite (cells s)) kb \<Longrightarrow> nonempty kb = filter (\<lambda>s. cells s \<noteq> {}) kb"
  unfolding nonempty_def list_all_iff by (rule filter_cong) simp_all

lemma set_nonempty_subset: "set (nonempty kb) \<subseteq> set kb"
  by (simp add: nonempty_def)

lemma add_knowledge_E:
  assumes "add_knowledge c n a = Some (Inr a')"
  obtains s a2 where "new_sentence (observe c a) c n = Inr s"
    and "closure_loop ((observe c a)\<lparr>knowledge := knowledge (observe c a) @ [s]\<rparr>) = Some a2"
    and "a' = a2\<lparr>knowledge := remove_duplicates (nonempty (knowledge a2))\<rparr>"
proof -
  from assms obtain s where s: "new_sentence (observe c a) c n = Inr s"
    by (cases "new_sentence (observe c a) c n") (simp_all add: add_knowledge_def Let_def)
  let ?a1 = "(observe c a)\<lparr>knowledge := knowledge (observe c a) @ [s]\<rparr>"
  from assms s obtain a2 where a2: "closure_loop ?a1 = Some a2"
    by (cases "closure_loop ?a1") (simp_all add: add_knowledge_def Let_def)
  from assms s a2 have "a' = a2\<lparr>knowledge := remove_duplicates (nonempty (knowledge a2))\<rparr>"
    by (simp add: add_knowledge_def Let_def remove_loop_returns)
  with s a2 that show thesis by blast
qed

lemma add_knowledge_I:
  assumes "new_sentence (observe c a) c n = Inr s"
    and "closure_loop ((observe c a)\<lparr>knowledge := knowledge (observe c a) @ [s]\<rparr>) = Some a2"
  shows "add_knowledge c n a
     = Some (Inr (a2\<lparr>knowledge := remove_duplicates (nonempty (knowledge a2))\<rparr>))"
  using assms by (simp add: add_knowledge_def Let_def remove_loop_returns)

lemma surrounding_cells_observe [simp]:
  "surrounding_cells (observe c a) c' = surrounding_cells a c'"
  by (simp add: surrounding_cells_eq)

subsection \<open>Finite sentences\<close>

lemma finite_kb_observed:
  assumes "finite_kb a" "new_sentence (observe c a) c n = Inr s"
  shows "finite_kb ((observe c a)\<lparr>knowledge := knowledge (observe c a) @ [s]\<rparr>)"
proof -
  have "finite (cells s)" using new_sentence_cells [OF assms(2)] by simp
  with assms(1) show ?thesis by (simp add: finite_kb_def list_all_iff)
qed

lemma finite_kb_add_knowledge:
  assumes "finite_kb a" "add_knowledge c n a = Some (Inr a')"
  shows "finite_kb a'"
proof -
  from assms(2) obtain s a2 where s: "new_sentence (observe c a) c n = Inr s"
    and a2: "closure_loop ((observe c a)\<lparr>knowledge := knowledge (observe c a) @ [s]\<rparr>) = Some a2"
    and a': "a' = a2\<lparr>knowledge := remove_duplicates (nonempty (knowledge a2))\<rparr>"
    by (rule add_knowledge_E)
  have "finite_kb a2" by (rule finite_kb_closure_loop [OF a2 finite_kb_observed [OF assms(1) s]])
  then show ?thesis using set_nonempty_subset [of "knowledge a2"]
    by (auto simp: a' finite_kb_def list_all_iff)
qed

subsection \<open>Sentences about unresolved cells only\<close>

lemma unresolved_kb_observed:
  assumes "unresolved_kb a" "new_sentence (observe c a) c n = Inr s"
  shows "unresolved_kb ((observe c a)\<lparr>knowledge := knowledge (observe c a) @ [s]\<rparr>)"
proof -
  have "cells s \<inter> (mines a \<union> insert c (safes a)) = {}"
    using new_sentence_cells [OF assms(2)] by auto
  moreover have "(cells t - {c}) \<inter> (mines a \<union> insert c (safes a)) = {}"
    if "t \<in> set (knowledge a)" for t
    using assms(1) that by (auto simp: unresolved_kb_def list_all_iff)
  ultimately show ?thesis by (simp add: unresolved_kb_def list_all_iff)
qed

lemma unresolved_kb_add_knowledge:
  assumes "unresolved_kb a" "add_knowledge c n a = Some (Inr a')"
  shows "unresolved_kb a'"
proof -
  from assms(2) obtain s a2 where s: "new_sentence (observe c a) c n = Inr s"
    and a2: "closure_loop ((observe c a)\<lparr>knowledge := knowledge (observe c a) @ [s]\<rparr>) = Some a2"
    and a': "a' = a2\<lparr>knowledge := remove_duplicates (nonempty (knowledge a2))\<rparr>"
    by (rule add_knowledge_E)
  have "unresolved_kb a2"
    by (rule unresolved_kb_closure_loop [OF a2 unresolved_kb_observed [OF assms(1) s]])
  then show ?thesis using set_nonempty_subset [of "knowledge a2"]
    by (auto simp: a' unresolved_kb_def list_all_iff)
qed

subsection \<open>Growing sets, fixed dimensions\<close>

lemma grows_add_knowledge:
  assumes "add_knowledge c n a = Some (Inr a')"
  shows "grows a a'"
proof -
  from assms obtain s a2 where
    a2: "closure_loop ((observe c a)\<lparr>knowledge := knowledge (observe c a) @ [s]\<rparr>) = Some a2"
    and a': "a' = a2\<lparr>knowledge := remove_duplicates (nonempty (knowledge a2))\<rparr>"
    by (rule add_knowledge_E)
  from grows_closure_loop [OF a2] show ?thesis by (auto simp: grows_def a')
qed

lemma dims_closure_loop:
  assumes "closure_loop a = Some a'"
  shows "height a' = height a \<and> width a' = width a"
  by (rule closure_loop_rule
        [where R = "\<lambda>b. height b = height a \<and> width b = width a"
           and Qm = "\<lambda>c. True" and Qs = "\<lambda>c. True", OF assms]) simp_all

lemma dims_add_knowledge:
  assumes "add_knowledge c n a = Some (Inr a')"
  shows "height a' = height a \<and> width a' = width a"
proof -
  from assms obtain s a2 where
    a2: "closure_loop ((observe c a)\<lparr>knowledge := knowledge (observe c a) @ [s]\<rparr>) = Some a2"
    and a': "a' = a2\<lparr>knowledge := remove_duplicates (nonempty (knowledge a2))\<rparr>"
    by (rule add_knowledge_E)
  from dims_closure_loop [OF a2] show ?thesis by (simp add: a')
qed

subsection \<open>An observation of the board keeps the agent right\<close>

lemma sound_disjoint: "sound M a \<Longrightarrow> mines a \<inter> safes a = {}"
  by (auto simp: sound_def)

lemma sound_observe:
  assumes "sound M a" "c \<notin> M"
  shows "sound M (observe c a)"
proof -
  have "sound M (a\<lparr>moves_made := insert c (moves_made a), safes := insert c (safes a)\<rparr>)"
    using assms by (simp add: sound_def)
  from sound_mark_safe [OF this assms(2)] show ?thesis by (simp add: observe_def)
qed

lemma card_neighbourhood:
  assumes "finite N" "A \<subseteq> M" "B \<inter> M = {}"
  shows "int (card ((N - (A \<union> B)) \<inter> M)) = int (card (N \<inter> M)) - int (card (N \<inter> A))"
proof -
  have eq: "(N - (A \<union> B)) \<inter> M = N \<inter> M - N \<inter> A" using assms(2,3) by auto
  have sub: "N \<inter> A \<subseteq> N \<inter> M" using assms(2) by auto
  have fin: "finite (N \<inter> M)" "finite (N \<inter> A)" using assms(1) by simp_all
  have "card (N \<inter> M - N \<inter> A) = card (N \<inter> M) - card (N \<inter> A)"
    using fin(2) sub by (rule card_Diff_subset)
  moreover have "card (N \<inter> A) \<le> card (N \<inter> M)" using fin(1) sub by (rule card_mono)
  ultimately show ?thesis by (simp only: eq)
qed

lemma sound_add_knowledge:
  assumes s: "sound M a" and c: "c \<notin> M"
    and n: "n = int (card (surrounding_cells a c \<inter> M))"
  shows "\<exists>a'. add_knowledge c n a = Some (Inr a') \<and> sound M a'"
proof -
  let ?o = "observe c a"
  let ?N = "surrounding_cells a c"
  let ?s = "\<lparr>cells = ?N - (mines ?o \<union> safes ?o), count = n - int (card (?N \<inter> mines ?o))\<rparr>"
  let ?a1 = "?o\<lparr>knowledge := knowledge ?o @ [?s]\<rparr>"
  have so: "sound M ?o" by (rule sound_observe [OF s c])
  have new: "new_sentence ?o c n = Inr ?s"
    using new_sentence_returns [OF sound_disjoint [OF so], of c n] by simp
  have mo: "mines ?o \<subseteq> M" "safes ?o \<inter> M = {}" using so by (simp_all add: sound_def)
  have "count ?s = int (card (cells ?s \<inter> M))"
    using card_neighbourhood [OF finite_surrounding_cells mo, of a c] n by simp
  moreover have "finite (cells ?s)" by simp
  ultimately have s1: "sound M ?a1" using so by (simp add: sound_def list_all_iff)
  from closure_loop_returns [OF s1] obtain a2 where a2: "closure_loop ?a1 = Some a2" ..
  have s2: "sound M a2" by (rule sound_closure_loop [OF a2 s1])
  let ?a' = "a2\<lparr>knowledge := remove_duplicates (nonempty (knowledge a2))\<rparr>"
  have "add_knowledge c n a = Some (Inr ?a')" by (rule add_knowledge_I [OF new a2])
  moreover have "sound M ?a'" using s2 set_nonempty_subset [of "knowledge a2"]
    by (auto simp: sound_def list_all_iff)
  ultimately show ?thesis by blast
qed

section \<open>Two runs of the agent\<close>

lemma add_knowledge_example:
  "add_knowledge (0, 0) 1 (init_ai 2 2) =
     Some (Inr \<lparr>height = 2, width = 2, moves_made = {(0, 0)}, mines = {}, safes = {(0, 0)},
       knowledge = [\<lparr>cells = {(0, 1), (1, 0), (1, 1)}, count = 1\<rparr>]\<rparr>)"
  by code_simp

lemma play_example_1:
  "play \<lparr>board_height = 1, board_width = 3, board = [[False, False, True]]\<rparr> [(0, 0)]
     (init_ai 1 3) =
     Some (Inr \<lparr>height = 1, width = 3, moves_made = {(0, 0)}, mines = {},
       safes = {(0, 0), (0, 1)}, knowledge = []\<rparr>)"
  by code_simp

section \<open>The sentences of the subset example\<close>

lemma elems_empty [simp]: "elems {} = []"
  by (simp add: elems_def)

lemma elems_single [simp]: "elems {c} = [c]"
  by (simp add: elems_def)

lemma visit_idle:
  assumes "known_mines (knowledge (fst st) ! i) = {}" "known_safes (knowledge (fst st) ! i) = {}"
  shows "visit i st = st"
  using assms by (simp add: visit_def Let_def)

lemma closure_pass_idle:
  assumes "\<forall>s \<in> set (knowledge a). known_mines s = {} \<and> known_safes s = {}"
  shows "mark_phase 0 (a, {}) = (a, {})"
proof -
  have "mark_phase i (a, {}) = (a, {})" for i
  proof (induction "length (knowledge a) - i" arbitrary: i)
    case 0
    then show ?case by (simp add: mark_phase.simps [of i])
  next
    case (Suc k)
    then have i: "i < length (knowledge a)" by simp
    then have "visit i (a, {}) = (a, {})" using assms by (intro visit_idle) simp_all
    moreover have "mark_phase (Suc i) (a, {}) = (a, {})" using Suc by (intro Suc.hyps) simp
    ultimately show ?case using i by (simp add: mark_phase.simps [of i])
  qed
  then show ?thesis .
qed

lemma subset_example:
  fixes A B C :: cell
  assumes d: "A \<noteq> B" "A \<noteq> C" "B \<noteq> C"
  shows "closure_loop (a\<lparr>knowledge := [\<lparr>cells = {A, B}, count = 1\<rparr>, \<lparr>cells = {A, B, C}, count = 2\<rparr>]\<rparr>)
     = Some (a\<lparr>mines := insert C (mines a),
               knowledge := [\<lparr>cells = {A, B}, count = 1\<rparr>, \<lparr>cells = {A, B}, count = 1\<rparr>,
                             \<lparr>cells = {}, count = 0\<rparr>]\<rparr>)"
proof -
  let ?S1 = "\<lparr>cells = {A, B}, count = 1\<rparr>"
  let ?S2 = "\<lparr>cells = {A, B, C}, count = 2\<rparr>"
  let ?S3 = "\<lparr>cells = {C}, count = 1\<rparr>"
  let ?E = "\<lparr>cells = {}, count = 0\<rparr>"
  let ?a0 = "a\<lparr>knowledge := [?S1, ?S2]\<rparr>"
  let ?a1 = "a\<lparr>knowledge := [?S1, ?S2, ?S3]\<rparr>"
  let ?a2 = "a\<lparr>mines := insert C (mines a), knowledge := [?S1, ?S1, ?E]\<rparr>"
  have c2: "card {A, B} = 2" and c3: "card {A, B, C} = 3" using d by simp_all
  have km1: "known_mines ?S1 = {}" "known_safes ?S1 = {}"
    and km2: "known_mines ?S2 = {}" "known_safes ?S2 = {}"
    and km3: "known_mines ?S3 = {C}"
    and kmE: "known_mines ?E = {}" "known_safes ?E = {}"
    by (simp_all add: known_mines_def known_safes_def c2 c3)
  have diff: "{A, B, C} - {A, B} = {C}" using d by auto
  have ne: "{A, B} \<noteq> {A, B, C}" "\<not> {A, B, C} \<subseteq> {A, B}" "{C} \<noteq> {A, B}" using d by auto
  have n0: "new_sentences [?S1, ?S2] = [?S3]"
    using d by (auto simp: new_sentences_def diff ne)
  have m0: "mark_phase 0 (?a0, {}) = (?a0, {})"
    by (rule closure_pass_idle) (simp add: km1 km2)
  have p0: "closure_pass ?a0 = (?a1, False)"
    using d by (simp add: closure_pass_def m0 n0 add_new_Cons ne)
  have v0: "visit 0 (?a1, {}) = (?a1, {})" by (rule visit_idle) (simp_all add: km1)
  have v1: "visit 1 (?a1, {}) = (?a1, {})" by (rule visit_idle) (simp_all add: km2)
  have v2: "visit 2 (?a1, {}) = (?a2, {C})"
    using d by (simp add: visit_def Let_def km3 kmE mark_mines_Cons mark_mine_def
        Sentence_mark_mine_def diff insert_Diff_if)
  have m1: "mark_phase 0 (?a1, {}) = (?a2, {C})"
    by (simp add: mark_phase.simps [of 0] mark_phase.simps [of "Suc 0"]
        mark_phase.simps [of "Suc (Suc 0)"] mark_phase.simps [of "Suc (Suc (Suc 0))"]
        v0 v1 v2 [simplified numeral_2_eq_2] v1 [simplified])
  have n1: "set (new_sentences [?S1, ?S1, ?E]) \<subseteq> {?S1}"
    by (auto simp: new_sentences_def split: if_splits)
  have an: "add_new new (kb, 0) = (kb, 0)" if "set new \<subseteq> set kb" for new kb :: "sentence list"
    using that by (induction new) (auto simp: add_new_Cons)
  have a1: "add_new (new_sentences [?S1, ?S1, ?E]) ([?S1, ?S1, ?E], 0) = ([?S1, ?S1, ?E], 0)"
    by (rule an) (use n1 in auto)
  have p1: "closure_pass ?a1 = (?a2, False)"
    by (simp add: closure_pass_def m1 a1)
  have m2: "mark_phase 0 (?a2, {}) = (?a2, {})"
    by (rule closure_pass_idle) (simp add: km1 kmE)
  have p2: "closure_pass ?a2 = (?a2, True)"
    by (simp add: closure_pass_def m2 a1)
  have "closure_loop ?a2 = Some ?a2" by (subst closure_loop.simps) (simp add: p2)
  then have "closure_loop ?a1 = Some ?a2" by (subst closure_loop.simps) (simp add: p1)
  then show ?thesis by (subst closure_loop.simps) (simp add: p0)
qed

section \<open>The order of iteration over a set\<close>

text \<open>
  The loops over a set give the same result for every order in which the set is
  enumerated, so the order that \<open>elems\<close> fixes is no restriction.
\<close>

lemma fold_Sentence_mark_mine:
  "fold Sentence_mark_mine cs s =
     s\<lparr>cells := cells s - set cs, count := count s - int (card (cells s \<inter> set cs))\<rparr>"
proof (induction cs arbitrary: s)
  case Nil
  then show ?case by simp
next
  case (Cons c cs)
  let ?s = "Sentence_mark_mine c s"
  have "fold Sentence_mark_mine (c # cs) s = fold Sentence_mark_mine cs ?s" by simp
  also have "\<dots> = ?s\<lparr>cells := cells ?s - set cs,
                        count := count ?s - int (card (cells ?s \<inter> set cs))\<rparr>"
    by (rule Cons.IH)
  also have "\<dots> = s\<lparr>cells := cells s - set (c # cs),
                        count := count s - int (card (cells s \<inter> set (c # cs)))\<rparr>"
  proof (cases "c \<in> cells s")
    case True
    have cl: "cells s - {c} - set cs = cells s - insert c (set cs)" by auto
    have "cells s \<inter> set (c # cs) = insert c ((cells s - {c}) \<inter> set cs)" using True by auto
    moreover have "c \<notin> (cells s - {c}) \<inter> set cs" "finite ((cells s - {c}) \<inter> set cs)"
      by simp_all
    ultimately have "int (card (cells s \<inter> set (c # cs)))
        = int (card ((cells s - {c}) \<inter> set cs)) + 1"
      by simp
    with True show ?thesis by (simp add: Sentence_mark_mine_def cl algebra_simps)
  next
    case False
    then have "cells s \<inter> set (c # cs) = cells s \<inter> set cs"
      "cells s - set (c # cs) = cells s - set cs" by auto
    with False show ?thesis by (simp only: Sentence_mark_mine_def if_False)
  qed
  finally show ?case .
qed

lemma fold_Sentence_mark_safe:
  "fold Sentence_mark_safe cs s = s\<lparr>cells := cells s - set cs\<rparr>"
proof (induction cs arbitrary: s)
  case Nil
  then show ?case by simp
next
  case (Cons c cs)
  let ?s = "Sentence_mark_safe c s"
  have "fold Sentence_mark_safe (c # cs) s = fold Sentence_mark_safe cs ?s" by simp
  also have "\<dots> = ?s\<lparr>cells := cells ?s - set cs\<rparr>" by (rule Cons.IH)
  also have "\<dots> = s\<lparr>cells := cells s - set (c # cs)\<rparr>"
  proof (cases "c \<in> cells s")
    case True
    have "cells s - {c} - set cs = cells s - set (c # cs)" by auto
    with True show ?thesis by (simp only: Sentence_mark_safe_def if_True) simp
  next
    case False
    then have "cells s - set (c # cs) = cells s - set cs" by auto
    with False show ?thesis by (simp only: Sentence_mark_safe_def if_False)
  qed
  finally show ?case .
qed

lemma mark_mines_fold:
  "mark_mines cs st =
     ((fst st)\<lparr>mines := set cs \<union> mines (fst st),
               knowledge := map (fold Sentence_mark_mine cs) (knowledge (fst st))\<rparr>,
      set cs \<union> snd st)"
proof (induction cs arbitrary: st)
  case Nil
  then show ?case by simp
next
  case (Cons c cs)
  show ?case by (simp add: mark_mines_Cons Cons.IH mark_mine_def)
qed

lemma mark_safes_fold:
  "mark_safes cs st =
     ((fst st)\<lparr>safes := set cs \<union> safes (fst st),
               knowledge := map (fold Sentence_mark_safe cs) (knowledge (fst st))\<rparr>,
      set cs \<union> snd st)"
proof (induction cs arbitrary: st)
  case Nil
  then show ?case by simp
next
  case (Cons c cs)
  show ?case by (simp add: mark_safes_Cons Cons.IH mark_safe_def)
qed

lemma mark_mines_any_order: "set cs = set cs' \<Longrightarrow> mark_mines cs st = mark_mines cs' st"
  by (simp add: mark_mines_fold fold_Sentence_mark_mine)

lemma mark_safes_any_order: "set cs = set cs' \<Longrightarrow> mark_safes cs st = mark_safes cs' st"
  by (simp add: mark_safes_fold fold_Sentence_mark_safe)

lemma sentence_loop_raises:
  assumes "distinct cs" "set cs \<subseteq> sc" "set cs \<inter> mines a \<inter> safes a \<noteq> {}"
  shows "sentence_loop a cs sc n = Inl KeyError"
  using assms
proof (induction cs arbitrary: sc n)
  case Nil
  then show ?case by simp
next
  case (Cons c cs)
  have c: "c \<in> sc" "c \<notin> set cs" and cs: "distinct cs" using Cons.prems by auto
  have sub: "set cs \<subseteq> sc - {c}" "set cs \<subseteq> sc" using Cons.prems c by auto
  show ?case
  proof (cases "c \<in> mines a \<and> c \<in> safes a")
    case True
    then show ?thesis by (subst sentence_loop_Cons) simp
  next
    case False
    with Cons.prems(3) have ne: "set cs \<inter> mines a \<inter> safes a \<noteq> {}" by auto
    note ih = Cons.IH [OF cs sub(1) ne] Cons.IH [OF cs sub(2) ne]
    show ?thesis using False c ih by (subst sentence_loop_Cons) simp
  qed
qed

lemma sentence_loop_any_order:
  assumes "distinct cs" "distinct cs'" "set cs = set cs'" "set cs \<subseteq> sc"
  shows "sentence_loop a cs sc n = sentence_loop a cs' sc n"
proof (cases "set cs \<inter> mines a \<inter> safes a = {}")
  case True
  with assms show ?thesis by (simp add: sentence_loop_returns)
next
  case False
  with assms show ?thesis by (simp add: sentence_loop_raises)
qed

section \<open>Sequences of observations\<close>

lemma sound_init_ai: "sound M (init_ai h w)"
  by (simp add: sound_def init_ai_def)

lemma not_true_mine:
  "in_bounds (board_height g) (board_width g) c \<and> \<not> is_mine g c \<Longrightarrow> c \<notin> true_mines g"
  by (simp add: true_mines_def)

lemma play_sound:
  assumes "sound (true_mines g) a" "height a = board_height g" "width a = board_width g"
    and "\<forall>c \<in> set cs. c \<notin> true_mines g"
  shows "\<exists>a'. play g cs a = Some (Inr a') \<and> sound (true_mines g) a'
            \<and> height a' = board_height g \<and> width a' = board_width g"
  using assms
proof (induction cs arbitrary: a)
  case Nil
  then show ?case by simp
next
  case (Cons c cs)
  have c: "c \<notin> true_mines g" using Cons.prems(4) by simp
  have n: "nearby_mines g c = int (card (surrounding_cells a c \<inter> true_mines g))"
    by (rule nearby_mines_card [OF Cons.prems(2,3)])
  from sound_add_knowledge [OF Cons.prems(1) c n]
  obtain a1 where a1: "add_knowledge c (nearby_mines g c) a = Some (Inr a1)"
    and s1: "sound (true_mines g) a1" by blast
  have d1: "height a1 = board_height g" "width a1 = board_width g"
    using dims_add_knowledge [OF a1] Cons.prems(2,3) by simp_all
  have "\<forall>c \<in> set cs. c \<notin> true_mines g" using Cons.prems(4) by simp
  from Cons.IH [OF s1 d1 this] a1 show ?case by simp
qed

lemma play_init_sound:
  assumes "\<forall>c \<in> set cs. in_bounds (board_height g) (board_width g) c \<and> \<not> is_mine g c"
  shows "\<exists>a. play g cs (init_ai (board_height g) (board_width g)) = Some (Inr a)
           \<and> sound (true_mines g) a
           \<and> height a = board_height g \<and> width a = board_width g"
proof (rule play_sound)
  show "sound (true_mines g) (init_ai (board_height g) (board_width g))" by (rule sound_init_ai)
  show "\<forall>c \<in> set cs. c \<notin> true_mines g" using assms not_true_mine by blast
qed (simp_all add: init_ai_def)

lemma add_new_appends:
  "\<exists>added. fst (add_new new st) = fst st @ added \<and> distinct added
           \<and> set added = set new - set (fst st)"
proof (induction new arbitrary: st)
  case Nil
  then show ?case by simp
next
  case (Cons s new)
  show ?case
  proof (cases "s \<in> set (fst st)")
    case True
    from Cons.IH [of st] obtain added where "fst (add_new new st) = fst st @ added"
      "distinct added" "set added = set new - set (fst st)" by blast
    with True show ?thesis by (auto simp: add_new_Cons)
  next
    case False
    from Cons.IH [of "(fst st @ [s], snd st + 1)"] obtain added where
      a: "fst (add_new new (fst st @ [s], snd st + 1)) = (fst st @ [s]) @ added"
      "distinct added" "set added = set new - set (fst st @ [s])" by auto
    have "fst (add_new (s # new) st) = fst st @ (s # added)" using False a(1)
      by (simp add: add_new_Cons)
    moreover have "distinct (s # added)" using a(2,3) by auto
    moreover have "set (s # added) = set (s # new) - set (fst st)" using a(3) False by auto
    ultimately show ?thesis by blast
  qed
qed

lemma knowledge_closure_pass:
  "knowledge (fst (closure_pass a)) =
     fst (add_new (new_sentences (knowledge (fst (mark_phase 0 (a, {})))))
            (knowledge (fst (mark_phase 0 (a, {}))), 0))"
  by (simp add: closure_pass_def split: prod.splits)

section \<open>A call that leaves sentences to tidy\<close>

text \<open>
  The knowledge base is set as the tests of the repository set it. After the loop of
  step 4 it holds a sentence twice and two sentences with no cells.
\<close>

lemma tidy_example_sentence:
  "new_sentence
     (observe (2, 2)
        ((init_ai 3 3)\<lparr>knowledge := [\<lparr>cells = {(0, 0), (0, 1)}, count = 1\<rparr>,
                                      \<lparr>cells = {(0, 0), (0, 1), (0, 2)}, count = 2\<rparr>]\<rparr>))
     (2, 2) 0
   = Inr \<lparr>cells = {(1, 1), (1, 2), (2, 1)}, count = 0\<rparr>"
  by code_simp

lemma tidy_example_closure:
  "closure_loop
     ((observe (2, 2)
        ((init_ai 3 3)\<lparr>knowledge := [\<lparr>cells = {(0, 0), (0, 1)}, count = 1\<rparr>,
                                      \<lparr>cells = {(0, 0), (0, 1), (0, 2)}, count = 2\<rparr>]\<rparr>))
      \<lparr>knowledge :=
         knowledge (observe (2, 2)
           ((init_ai 3 3)\<lparr>knowledge := [\<lparr>cells = {(0, 0), (0, 1)}, count = 1\<rparr>,
                                         \<lparr>cells = {(0, 0), (0, 1), (0, 2)}, count = 2\<rparr>]\<rparr>))
         @ [\<lparr>cells = {(1, 1), (1, 2), (2, 1)}, count = 0\<rparr>]\<rparr>)
   = Some \<lparr>height = 3, width = 3, moves_made = {(2, 2)}, mines = {(0, 2)},
       safes = {(1, 1), (1, 2), (2, 1), (2, 2)},
       knowledge = [\<lparr>cells = {(0, 0), (0, 1)}, count = 1\<rparr>,
                    \<lparr>cells = {(0, 0), (0, 1)}, count = 1\<rparr>,
                    \<lparr>cells = {}, count = 0\<rparr>, \<lparr>cells = {}, count = 0\<rparr>]\<rparr>"
  by code_simp

section \<open>The claims\<close>

text \<open>
  Claim C1. On a board as the constructor builds it, take any sequence of calls of
  \<open>add_knowledge\<close> from the initial agent, each for a cell of the board that is not a
  mine and with the count of mines that the board gives for the cell. Every call returns,
  and in the state after the sequence no cell is both a known mine and a known safe. The
  cells need not be different from each other.
\<close>

theorem mines_safes_disjoint:
  assumes "wf_board g"
    and "\<forall>c \<in> set cs. in_bounds (board_height g) (board_width g) c \<and> \<not> is_mine g c"
  shows "\<exists>a. play g cs (init_ai (board_height g) (board_width g)) = Some (Inr a)
           \<and> mines a \<inter> safes a = {}"
  using play_init_sound [OF assms(2)] sound_disjoint by blast

theorem mines_safes_disjoint_witness:
  "wf_board \<lparr>board_height = 1, board_width = 3, board = [[False, False, True]]\<rparr>
   \<and> in_bounds 1 3 (0, 0)
   \<and> \<not> is_mine \<lparr>board_height = 1, board_width = 3, board = [[False, False, True]]\<rparr> (0, 0)
   \<and> in_bounds 1 3 (0, 1)
   \<and> \<not> is_mine \<lparr>board_height = 1, board_width = 3, board = [[False, False, True]]\<rparr> (0, 1)
   \<and> (\<exists>a. play \<lparr>board_height = 1, board_width = 3, board = [[False, False, True]]\<rparr>
              [(0, 0), (0, 1)] (init_ai 1 3) = Some (Inr a)
           \<and> mines a \<inter> safes a = {})"
  using mines_safes_disjoint
    [of "\<lparr>board_height = 1, board_width = 3, board = [[False, False, True]]\<rparr>"
        "[(0, 0), (0, 1)]"]
  by (simp add: wf_board_def in_bounds_def is_mine_def)

text \<open>
  Claim C2. In a turn of the loop of step 4, after the marking, every pair of sentences
  of the knowledge base of which the first has a strict subset of the cells of the second
  gives the sentence of the difference of the cells and of the counts, and the knowledge
  base after the turn is the one after the marking followed by the derived sentences that
  were not in it, each once. From \<open>{A, B}\<close> with count 1 and \<open>{A, B, C}\<close> with count 2 the
  first turn derives \<open>{C}\<close> with count 1, and the loop ends with \<open>C\<close> a known mine.
\<close>

theorem subset_inference:
  fixes A B C :: cell
  shows "(\<forall>s1 \<in> set (knowledge (fst (mark_phase 0 (a, {})))).
          \<forall>s2 \<in> set (knowledge (fst (mark_phase 0 (a, {})))).
            cells s1 \<subseteq> cells s2 \<and> cells s1 \<noteq> cells s2 \<longrightarrow>
            \<lparr>cells = cells s2 - cells s1, count = count s2 - count s1\<rparr>
              \<in> set (knowledge (fst (closure_pass a))))
       \<and> (\<exists>added. knowledge (fst (closure_pass a))
                     = knowledge (fst (mark_phase 0 (a, {}))) @ added
                 \<and> distinct added
                 \<and> set added = set (new_sentences (knowledge (fst (mark_phase 0 (a, {})))))
                                 - set (knowledge (fst (mark_phase 0 (a, {})))))
       \<and> (A \<noteq> B \<and> A \<noteq> C \<and> B \<noteq> C \<longrightarrow>
            \<lparr>cells = {C}, count = 1\<rparr>
              \<in> set (knowledge (fst (closure_pass
                    (b\<lparr>knowledge := [\<lparr>cells = {A, B}, count = 1\<rparr>,
                                     \<lparr>cells = {A, B, C}, count = 2\<rparr>]\<rparr>))))
            \<and> (\<exists>b'. closure_loop (b\<lparr>knowledge := [\<lparr>cells = {A, B}, count = 1\<rparr>,
                                                   \<lparr>cells = {A, B, C}, count = 2\<rparr>]\<rparr>) = Some b'
                    \<and> C \<in> mines b'))"
proof (intro conjI ballI impI)
  let ?kb = "knowledge (fst (mark_phase 0 (a, {})))"
  fix s1 s2 assume "s1 \<in> set ?kb" "s2 \<in> set ?kb" "cells s1 \<subseteq> cells s2 \<and> cells s1 \<noteq> cells s2"
  then have "\<lparr>cells = cells s2 - cells s1, count = count s2 - count s1\<rparr> \<in> set (new_sentences ?kb)"
    unfolding set_new_sentences by blast
  then show "\<lparr>cells = cells s2 - cells s1, count = count s2 - count s1\<rparr>
      \<in> set (knowledge (fst (closure_pass a)))"
    by (simp add: knowledge_closure_pass set_add_new)
next
  let ?kb = "knowledge (fst (mark_phase 0 (a, {})))"
  show "\<exists>added. knowledge (fst (closure_pass a)) = ?kb @ added \<and> distinct added
      \<and> set added = set (new_sentences ?kb) - set ?kb"
    using add_new_appends [of "new_sentences ?kb" "(?kb, 0)"]
    by (simp add: knowledge_closure_pass)
next
  let ?S1 = "\<lparr>cells = {A, B}, count = 1\<rparr>"
  let ?S2 = "\<lparr>cells = {A, B, C}, count = 2\<rparr>"
  let ?b0 = "b\<lparr>knowledge := [?S1, ?S2]\<rparr>"
  assume d: "A \<noteq> B \<and> A \<noteq> C \<and> B \<noteq> C"
  have c2: "card {A, B} = 2" and c3: "card {A, B, C} = 3" using d by simp_all
  have "mark_phase 0 (?b0, {}) = (?b0, {})"
    by (rule closure_pass_idle) (simp add: known_mines_def known_safes_def c2 c3)
  moreover have "{A, B, C} - {A, B} = {C}" using d by auto
  moreover have "{A, B} \<noteq> {A, B, C}" using d by auto
  ultimately show "\<lparr>cells = {C}, count = 1\<rparr> \<in> set (knowledge (fst (closure_pass ?b0)))"
    by (simp add: knowledge_closure_pass set_add_new new_sentences_def)
next
  assume d: "A \<noteq> B \<and> A \<noteq> C \<and> B \<noteq> C"
  then show "\<exists>b'. closure_loop (b\<lparr>knowledge := [\<lparr>cells = {A, B}, count = 1\<rparr>,
      \<lparr>cells = {A, B, C}, count = 2\<rparr>]\<rparr>) = Some b' \<and> C \<in> mines b'"
    using subset_example [of A B C b] by simp
qed

theorem subset_inference_witness:
  "\<lparr>cells = {(0, 0), (0, 1)}, count = 1\<rparr>
     \<in> set (knowledge (fst (mark_phase 0
          ((init_ai 8 8)\<lparr>knowledge := [\<lparr>cells = {(0, 0), (0, 1)}, count = 1\<rparr>,
                                        \<lparr>cells = {(0, 0), (0, 1), (0, 2)}, count = 2\<rparr>]\<rparr>, {}))))
   \<and> \<lparr>cells = {(0, 0), (0, 1), (0, 2)}, count = 2\<rparr>
     \<in> set (knowledge (fst (mark_phase 0
          ((init_ai 8 8)\<lparr>knowledge := [\<lparr>cells = {(0, 0), (0, 1)}, count = 1\<rparr>,
                                        \<lparr>cells = {(0, 0), (0, 1), (0, 2)}, count = 2\<rparr>]\<rparr>, {}))))
   \<and> \<lparr>cells = {(0, 2)}, count = 1\<rparr>
     \<in> set (knowledge (fst (closure_pass
          ((init_ai 8 8)\<lparr>knowledge := [\<lparr>cells = {(0, 0), (0, 1)}, count = 1\<rparr>,
                                        \<lparr>cells = {(0, 0), (0, 1), (0, 2)}, count = 2\<rparr>]\<rparr>))))
   \<and> (\<exists>b'. closure_loop
          ((init_ai 8 8)\<lparr>knowledge := [\<lparr>cells = {(0, 0), (0, 1)}, count = 1\<rparr>,
                                        \<lparr>cells = {(0, 0), (0, 1), (0, 2)}, count = 2\<rparr>]\<rparr>) = Some b'
          \<and> (0, 2) \<in> mines b')"
proof -
  let ?S1 = "\<lparr>cells = {(0, 0), (0, 1) :: cell}, count = 1\<rparr>"
  let ?S2 = "\<lparr>cells = {(0, 0), (0, 1), (0, 2) :: cell}, count = 2\<rparr>"
  let ?a = "(init_ai 8 8)\<lparr>knowledge := [?S1, ?S2]\<rparr>"
  have m: "mark_phase 0 (?a, {}) = (?a, {})"
    by (rule closure_pass_idle) (simp add: known_mines_def known_safes_def)
  have 1: "?S1 \<in> set (knowledge (fst (mark_phase 0 (?a, {}))))"
    and 2: "?S2 \<in> set (knowledge (fst (mark_phase 0 (?a, {}))))"
    by (simp_all add: m)
  have "(0, 2) \<in> cells ?S2" "(0, 2) \<notin> cells ?S1" by simp_all
  then have "cells ?S1 \<noteq> cells ?S2" by metis
  then have 3: "cells ?S1 \<subseteq> cells ?S2 \<and> cells ?S1 \<noteq> cells ?S2" by simp
  have d: "((0, 0) :: cell) \<noteq> (0, 1) \<and> ((0, 0) :: cell) \<noteq> (0, 2) \<and> ((0, 1) :: cell) \<noteq> (0, 2)"
    by simp
  note t = subset_inference [of ?a "(0, 0)" "(0, 1)" "(0, 2)" "init_ai 8 8"]
  from t have "\<lparr>cells = cells ?S2 - cells ?S1, count = count ?S2 - count ?S1\<rparr>
      \<in> set (knowledge (fst (closure_pass ?a)))"
    using 1 2 3 by blast
  moreover from t d have "\<exists>b'. closure_loop ?a = Some b' \<and> (0, 2) \<in> mines b'" by blast
  moreover have "cells ?S2 - cells ?S1 = {(0, 2)}" by auto
  ultimately show ?thesis using 1 2 by simp
qed

text \<open>
  Claim C3. Let the agent be in a state reached from the initial one by calls of
  \<open>add_knowledge\<close> for cells of the board that are not mines, each with the count of the
  board. A further such call builds the sentence of the neighbourhood without an error,
  the loop of step 4 ends, and the call returns.
\<close>

theorem closure_loop_terminates:
  assumes "wf_board g"
    and "\<forall>c \<in> set cs. in_bounds (board_height g) (board_width g) c \<and> \<not> is_mine g c"
    and "play g cs (init_ai (board_height g) (board_width g)) = Some (Inr a)"
    and "in_bounds (board_height g) (board_width g) c \<and> \<not> is_mine g c"
  shows "\<exists>s a2 a'. new_sentence (observe c a) c (nearby_mines g c) = Inr s
           \<and> closure_loop ((observe c a)\<lparr>knowledge := knowledge (observe c a) @ [s]\<rparr>) = Some a2
           \<and> add_knowledge c (nearby_mines g c) a = Some (Inr a')"
proof -
  from play_init_sound [OF assms(2)] assms(3)
  have s: "sound (true_mines g) a" and d: "height a = board_height g" "width a = board_width g"
    by auto
  have n: "nearby_mines g c = int (card (surrounding_cells a c \<inter> true_mines g))"
    by (rule nearby_mines_card [OF d])
  from sound_add_knowledge [OF s not_true_mine [OF assms(4)] n]
  obtain a' where a': "add_knowledge c (nearby_mines g c) a = Some (Inr a')" by blast
  then obtain s a2 where "new_sentence (observe c a) c (nearby_mines g c) = Inr s"
    "closure_loop ((observe c a)\<lparr>knowledge := knowledge (observe c a) @ [s]\<rparr>) = Some a2"
    by (rule add_knowledge_E)
  with a' show ?thesis by blast
qed

theorem closure_loop_terminates_witness:
  "wf_board \<lparr>board_height = 1, board_width = 3, board = [[False, False, True]]\<rparr>
   \<and> in_bounds 1 3 (0, 0)
   \<and> \<not> is_mine \<lparr>board_height = 1, board_width = 3, board = [[False, False, True]]\<rparr> (0, 0)
   \<and> in_bounds 1 3 (0, 1)
   \<and> \<not> is_mine \<lparr>board_height = 1, board_width = 3, board = [[False, False, True]]\<rparr> (0, 1)
   \<and> (\<exists>a'. add_knowledge (0, 1)
               (nearby_mines \<lparr>board_height = 1, board_width = 3,
                               board = [[False, False, True]]\<rparr> (0, 1))
               \<lparr>height = 1, width = 3, moves_made = {(0, 0)}, mines = {},
                  safes = {(0, 0), (0, 1)}, knowledge = []\<rparr> = Some (Inr a'))"
proof -
  let ?g = "\<lparr>board_height = 1, board_width = 3, board = [[False, False, True]]\<rparr>"
  have 1: "wf_board ?g" by (simp add: wf_board_def)
  have 2: "\<forall>c \<in> set [(0, 0)].
      in_bounds (board_height ?g) (board_width ?g) c \<and> \<not> is_mine ?g c"
    by (simp add: in_bounds_def is_mine_def)
  have 3: "play ?g [(0, 0)] (init_ai (board_height ?g) (board_width ?g)) =
     Some (Inr \<lparr>height = 1, width = 3, moves_made = {(0, 0)}, mines = {},
       safes = {(0, 0), (0, 1)}, knowledge = []\<rparr>)"
    using play_example_1 by simp
  have 4: "in_bounds (board_height ?g) (board_width ?g) (0, 1) \<and> \<not> is_mine ?g (0, 1)"
    by (simp add: in_bounds_def is_mine_def)
  from closure_loop_terminates [OF 1 2 3 4] 1 2 4 show ?thesis by auto
qed

text \<open>
  Claim C4. For a sentence (whose cell set is finite, as every Python set is),
  \<open>known_mines\<close> returns all the cells when the count equals the number of cells and the
  empty set otherwise, and \<open>known_safes\<close> returns all the cells when the count is 0 and
  the empty set otherwise. Both methods only read the sentence: their model takes the
  sentence and returns the set, with no sentence to return.
\<close>

theorem known_mines_known_safes_spec:
  assumes "finite (cells s)"
  shows "known_mines s = (if int (card (cells s)) = count s then cells s else {})
       \<and> known_safes s = (if count s = 0 then cells s else {})"
  using assms by (simp add: known_mines_def known_safes_def fold_insert_set)

theorem known_mines_known_safes_spec_witness:
  "finite (cells \<lparr>cells = {(0, 0), (0, 1)}, count = 2\<rparr>)
   \<and> known_mines \<lparr>cells = {(0, 0), (0, 1)}, count = 2\<rparr> = {(0, 0), (0, 1)}
   \<and> known_safes \<lparr>cells = {(0, 0), (0, 1)}, count = 2\<rparr> = {}"
  using known_mines_known_safes_spec [of "\<lparr>cells = {(0, 0), (0, 1)}, count = 2\<rparr>"]
  by simp

text \<open>
  Claim C5. Take a state whose sentences have finitely many cells, as every Python set
  has, and a call of \<open>add_knowledge\<close> in which the sentence of the neighbourhood is built
  and the loop of step 4 ends. Then the tidying loop ends too and the call returns. The
  state it returns is the one that the loop of step 4 leaves, with the knowledge base
  without the sentences with no cells and then without the repeats: no sentence of it has
  an empty set of cells, no two sentences are equal, its sentences are the sentences with
  cells that the loop left, and they stand in the order of their first occurrences.
  \<open>remove_duplicates\<close> keeps of each sentence the first occurrence: its result has the
  elements of its argument, each once, in the order of their first occurrences.
\<close>

theorem knowledge_tidy:
  assumes "finite_kb a"
    and "new_sentence (observe c a) c n = Inr s"
    and "closure_loop ((observe c a)\<lparr>knowledge := knowledge (observe c a) @ [s]\<rparr>) = Some a2"
  shows "\<exists>a'. add_knowledge c n a = Some (Inr a')
           \<and> a' = a2\<lparr>knowledge :=
                       remove_duplicates (filter (\<lambda>t. cells t \<noteq> {}) (knowledge a2))\<rparr>
           \<and> (\<forall>t \<in> set (knowledge a'). cells t \<noteq> {})
           \<and> distinct (knowledge a')
           \<and> set (knowledge a') = {t \<in> set (knowledge a2). cells t \<noteq> {}}
           \<and> sorted_wrt (\<lambda>t u. first_index (filter (\<lambda>t. cells t \<noteq> {}) (knowledge a2)) t
                                  < first_index (filter (\<lambda>t. cells t \<noteq> {}) (knowledge a2)) u)
                 (knowledge a')
           \<and> (\<forall>kb. set (remove_duplicates kb) = set kb \<and> distinct (remove_duplicates kb)
                 \<and> sorted_wrt (\<lambda>t u. first_index kb t < first_index kb u)
                      (remove_duplicates kb))"
proof -
  let ?kb = "filter (\<lambda>t. cells t \<noteq> {}) (knowledge a2)"
  let ?a' = "a2\<lparr>knowledge := remove_duplicates ?kb\<rparr>"
  have "finite_kb a2"
    by (rule finite_kb_closure_loop [OF assms(3) finite_kb_observed [OF assms(1,2)]])
  then have ne: "nonempty (knowledge a2) = ?kb"
    unfolding finite_kb_def by (rule nonempty_finite)
  have r: "add_knowledge c n a = Some (Inr ?a')"
    using add_knowledge_I [OF assms(2,3)] by (simp only: ne)
  have k: "knowledge ?a' = remove_duplicates ?kb" by simp
  have 1: "\<forall>t \<in> set (knowledge ?a'). cells t \<noteq> {}" by (simp add: k)
  have 2: "distinct (knowledge ?a')" by (simp add: k)
  have 3: "set (knowledge ?a') = {t \<in> set (knowledge a2). cells t \<noteq> {}}" by (auto simp: k)
  have 4: "sorted_wrt (\<lambda>t u. first_index ?kb t < first_index ?kb u) (knowledge ?a')"
    unfolding k by (rule remove_duplicates_order)
  have 5: "\<forall>kb. set (remove_duplicates kb) = set kb \<and> distinct (remove_duplicates kb)
      \<and> sorted_wrt (\<lambda>t u. first_index kb t < first_index kb u) (remove_duplicates kb)"
    using remove_duplicates_order by simp
  from r 1 2 3 4 5 show ?thesis by blast
qed

theorem knowledge_tidy_witness:
  "finite_kb ((init_ai 3 3)\<lparr>knowledge := [\<lparr>cells = {(0, 0), (0, 1)}, count = 1\<rparr>,
                                          \<lparr>cells = {(0, 0), (0, 1), (0, 2)}, count = 2\<rparr>]\<rparr>)
   \<and> new_sentence
        (observe (2, 2)
           ((init_ai 3 3)\<lparr>knowledge := [\<lparr>cells = {(0, 0), (0, 1)}, count = 1\<rparr>,
                                         \<lparr>cells = {(0, 0), (0, 1), (0, 2)}, count = 2\<rparr>]\<rparr>))
        (2, 2) 0
      = Inr \<lparr>cells = {(1, 1), (1, 2), (2, 1)}, count = 0\<rparr>
   \<and> closure_loop
        ((observe (2, 2)
           ((init_ai 3 3)\<lparr>knowledge := [\<lparr>cells = {(0, 0), (0, 1)}, count = 1\<rparr>,
                                         \<lparr>cells = {(0, 0), (0, 1), (0, 2)}, count = 2\<rparr>]\<rparr>))
         \<lparr>knowledge :=
            knowledge (observe (2, 2)
              ((init_ai 3 3)\<lparr>knowledge := [\<lparr>cells = {(0, 0), (0, 1)}, count = 1\<rparr>,
                                            \<lparr>cells = {(0, 0), (0, 1), (0, 2)}, count = 2\<rparr>]\<rparr>))
            @ [\<lparr>cells = {(1, 1), (1, 2), (2, 1)}, count = 0\<rparr>]\<rparr>)
      = Some \<lparr>height = 3, width = 3, moves_made = {(2, 2)}, mines = {(0, 2)},
          safes = {(1, 1), (1, 2), (2, 1), (2, 2)},
          knowledge = [\<lparr>cells = {(0, 0), (0, 1)}, count = 1\<rparr>,
                       \<lparr>cells = {(0, 0), (0, 1)}, count = 1\<rparr>,
                       \<lparr>cells = {}, count = 0\<rparr>, \<lparr>cells = {}, count = 0\<rparr>]\<rparr>
   \<and> add_knowledge (2, 2) 0
        ((init_ai 3 3)\<lparr>knowledge := [\<lparr>cells = {(0, 0), (0, 1)}, count = 1\<rparr>,
                                      \<lparr>cells = {(0, 0), (0, 1), (0, 2)}, count = 2\<rparr>]\<rparr>)
      = Some (Inr \<lparr>height = 3, width = 3, moves_made = {(2, 2)}, mines = {(0, 2)},
          safes = {(1, 1), (1, 2), (2, 1), (2, 2)},
          knowledge = [\<lparr>cells = {(0, 0), (0, 1)}, count = 1\<rparr>]\<rparr>)"
proof -
  let ?a = "(init_ai 3 3)\<lparr>knowledge := [\<lparr>cells = {(0, 0), (0, 1)}, count = 1\<rparr>,
                                        \<lparr>cells = {(0, 0), (0, 1), (0, 2)}, count = 2\<rparr>]\<rparr>"
  have 1: "finite_kb ?a" by (simp add: finite_kb_def init_ai_def)
  have ne: "{(0, 0), (0, 1) :: cell} \<noteq> {}" by simp
  from knowledge_tidy [OF 1 tidy_example_sentence tidy_example_closure]
  have "add_knowledge (2, 2) 0 ?a
      = Some (Inr \<lparr>height = 3, width = 3, moves_made = {(2, 2)}, mines = {(0, 2)},
          safes = {(1, 1), (1, 2), (2, 1), (2, 2)},
          knowledge = [\<lparr>cells = {(0, 0), (0, 1)}, count = 1\<rparr>]\<rparr>)"
    by (simp add: remove_duplicates_def)
  with 1 tidy_example_sentence tidy_example_closure show ?thesis by (intro conjI)
qed

text \<open>
  Claim C6. \<open>make_safe_move\<close> returns a cell of \<open>safes - moves_made\<close> when that set is
  not empty and \<open>None\<close> when it is empty, whatever the random source gives; with safes
  \<open>{(0,0), (0,1)}\<close> and moves made \<open>{(0,0)}\<close> it returns \<open>(0,1)\<close>, and with every safe
  cell already played it returns \<open>None\<close>. The method only reads the agent: its model
  returns the move and no state.
\<close>

theorem make_safe_move_spec:
  assumes "finite (safes a)"
  shows "(safes a - moves_made a \<noteq> {} \<longrightarrow>
           (\<exists>c \<in> safes a - moves_made a. make_safe_move r a = Some c))
       \<and> (safes a - moves_made a = {} \<longrightarrow> make_safe_move r a = None)
       \<and> (safes a \<subseteq> moves_made a \<longrightarrow> make_safe_move r a = None)
       \<and> (safes a = {(0, 0), (0, 1)} \<and> moves_made a = {(0, 0)} \<longrightarrow>
            make_safe_move r a = Some (0, 1))"
proof -
  let ?S = "safes a - moves_made a"
  have fin: "finite ?S" using assms by simp
  have ne: "make_safe_move r a = Some (random_choice r (elems ?S))
            \<and> random_choice r (elems ?S) \<in> ?S" if "?S \<noteq> {}"
  proof -
    have "elems ?S \<noteq> []" using that fin set_elems [OF fin] by fastforce
    from random_choice_in [OF this, of r] show ?thesis
      using that fin by (simp add: make_safe_move_def Let_def)
  qed
  have emp: "make_safe_move r a = None" if "?S = {}"
  proof -
    have "card ?S = 0" by (simp only: that card.empty)
    then show ?thesis by (simp add: make_safe_move_def Let_def)
  qed
  have ex: "make_safe_move r a = Some (0, 1)"
    if "safes a = {(0, 0), (0, 1)}" "moves_made a = {(0, 0)}"
  proof -
    have "?S = {(0, 1)}" using that by auto
    then show ?thesis using ne by auto
  qed
  show ?thesis using ne emp ex by auto
qed

theorem make_safe_move_spec_witness:
  "finite (safes ((init_ai 8 8)\<lparr>safes := {(0, 0), (0, 1)}, moves_made := {(0, 0)}\<rparr>))
   \<and> make_safe_move 7 ((init_ai 8 8)\<lparr>safes := {(0, 0), (0, 1)}, moves_made := {(0, 0)}\<rparr>)
       = Some (0, 1)
   \<and> make_safe_move 7 ((init_ai 8 8)\<lparr>safes := {(0, 0)}, moves_made := {(0, 0)}\<rparr>) = None"
  using make_safe_move_spec
          [of "(init_ai 8 8)\<lparr>safes := {(0, 0), (0, 1)}, moves_made := {(0, 0)}\<rparr>" 7]
        make_safe_move_spec
          [of "(init_ai 8 8)\<lparr>safes := {(0, 0)}, moves_made := {(0, 0)}\<rparr>" 7]
  by (simp add: init_ai_def)

text \<open>
  Claim C7. Marking a cell as a mine twice leaves the agent in the state that marking it
  once does (known mines, known safes and every sentence), and so does marking a cell as
  safe twice.
\<close>

theorem mark_twice_is_mark_once:
  "mark_mine c (mark_mine c a) = mark_mine c a \<and> mark_safe c (mark_safe c a) = mark_safe c a"
  by (simp add: mark_mine_def mark_safe_def Sentence_mark_mine_twice Sentence_mark_safe_twice)

text \<open>
  Claim C8. \<open>make_random_move\<close> chooses among the cells of the board that are neither
  moves made nor known mines: it returns \<open>None\<close> when there is none, a cell of that set
  otherwise, and each cell of the set is the move for exactly one of the \<open>card\<close> values
  that \<open>randbelow\<close> can give, so a uniform random source gives a uniform move. The
  method only reads the agent: its model returns the move and no state.
\<close>

theorem make_random_move_spec:
  "all_cells a = {(i, j). 0 \<le> i \<and> i < height a \<and> 0 \<le> j \<and> j < width a}
   \<and> (all_cells a - moves_made a - mines a = {} \<longrightarrow> make_random_move r a = None)
   \<and> (all_cells a - moves_made a - mines a \<noteq> {} \<longrightarrow>
        (\<exists>c \<in> all_cells a - moves_made a - mines a. make_random_move r a = Some c))
   \<and> (\<forall>c \<in> all_cells a - moves_made a - mines a.
        card {k. k < card (all_cells a - moves_made a - mines a)
                 \<and> make_random_move k a = Some c} = 1)"
proof -
  let ?P = "all_cells a - moves_made a - mines a"
  have fin: "finite ?P" using finite_all_cells by simp
  have emp: "make_random_move r a = None" if "?P = {}"
  proof -
    have "card ?P = 0" by (simp only: that card.empty)
    then show ?thesis by (simp add: make_random_move_def Let_def)
  qed
  have mv: "make_random_move k a = Some (random_choice k (elems ?P))" if "?P \<noteq> {}" for k
    using that fin by (simp add: make_random_move_def Let_def)
  have ne: "\<exists>c \<in> ?P. make_random_move r a = Some c" if "?P \<noteq> {}"
  proof -
    have "elems ?P \<noteq> []" using that set_elems [OF fin] by fastforce
    from random_choice_in [OF this, of r] show ?thesis
      using mv [OF that] fin by simp
  qed
  have un: "card {k. k < card ?P \<and> make_random_move k a = Some c} = 1" if "c \<in> ?P" for c
  proof -
    have "?P \<noteq> {}" using that by auto
    with mv have "{k. k < card ?P \<and> make_random_move k a = Some c}
        = {k. k < length (elems ?P) \<and> random_choice k (elems ?P) = c}"
      by simp
    moreover have "c \<in> set (elems ?P)" using that fin by simp
    ultimately show ?thesis using random_choice_unique [of "elems ?P" c] by simp
  qed
  show ?thesis using all_cells_eq emp ne un by blast
qed

theorem make_random_move_spec_witness:
  "(1, 1) \<in> all_cells ((init_ai 2 2)\<lparr>mines := {(0, 1)}, moves_made := {(0, 0)}\<rparr>)
             - moves_made ((init_ai 2 2)\<lparr>mines := {(0, 1)}, moves_made := {(0, 0)}\<rparr>)
             - mines ((init_ai 2 2)\<lparr>mines := {(0, 1)}, moves_made := {(0, 0)}\<rparr>)
   \<and> make_random_move 5 ((init_ai 2 2)\<lparr>mines := {(0, 1)}, moves_made := {(0, 0)}\<rparr>) \<noteq> None"
proof -
  let ?a = "(init_ai 2 2)\<lparr>mines := {(0, 1)}, moves_made := {(0, 0)}\<rparr>"
  have m: "(1, 1) \<in> all_cells ?a - moves_made ?a - mines ?a"
    by (simp add: all_cells_eq init_ai_def)
  then have "all_cells ?a - moves_made ?a - mines ?a \<noteq> {}" by blast
  with make_random_move_spec [of ?a 5]
  have "\<exists>c \<in> all_cells ?a - moves_made ?a - mines ?a. make_random_move 5 ?a = Some c"
    by blast
  with m show ?thesis by blast
qed

text \<open>
  Claim C9. No sentence of the initial agent mentions a cell that is a known mine or a
  known safe, and \<open>mark_mine\<close>, \<open>mark_safe\<close> and every call of \<open>add_knowledge\<close> that returns
  keep it so: when \<open>add_knowledge\<close> returns, the cells of every sentence of the knowledge
  base are disjoint from the known mines and the known safes.
\<close>

theorem sentences_unresolved:
  "unresolved_kb (init_ai h w)
   \<and> (unresolved_kb a \<longrightarrow>
        unresolved_kb (mark_mine c a) \<and> unresolved_kb (mark_safe c a)
        \<and> (add_knowledge c n a = Some (Inr a') \<longrightarrow>
             (\<forall>s \<in> set (knowledge a'). cells s \<inter> (mines a' \<union> safes a') = {})))"
proof -
  have "unresolved_kb (init_ai h w)" by (simp add: unresolved_kb_def init_ai_def)
  moreover have "\<forall>s \<in> set (knowledge a'). cells s \<inter> (mines a' \<union> safes a') = {}"
    if "unresolved_kb a" "add_knowledge c n a = Some (Inr a')"
    using unresolved_kb_add_knowledge [OF that] by (simp add: unresolved_kb_def list_all_iff)
  ultimately show ?thesis
    using unresolved_kb_mark_mine unresolved_kb_mark_safe by blast
qed

theorem sentences_unresolved_witness:
  "unresolved_kb (init_ai 2 2)
   \<and> add_knowledge (0, 0) 1 (init_ai 2 2) =
       Some (Inr \<lparr>height = 2, width = 2, moves_made = {(0, 0)}, mines = {}, safes = {(0, 0)},
         knowledge = [\<lparr>cells = {(0, 1), (1, 0), (1, 1)}, count = 1\<rparr>]\<rparr>)
   \<and> {(0, 1), (1, 0), (1, 1)} \<inter> ({} \<union> {(0, 0) :: cell}) = {}"
  using sentences_unresolved [of 2 2 "init_ai 2 2" "(0, 0)" 1
      "\<lparr>height = 2, width = 2, moves_made = {(0, 0)}, mines = {}, safes = {(0, 0)},
         knowledge = [\<lparr>cells = {(0, 1), (1, 0), (1, 1)}, count = 1\<rparr>]\<rparr>"]
    add_knowledge_example
  by simp

text \<open>
  Claim C10. \<open>mark_mine\<close>, \<open>mark_safe\<close> and every call of \<open>add_knowledge\<close> that returns leave
  each of the sets of moves made, known mines and known safes a superset of what it was.
  \<open>make_safe_move\<close> and \<open>make_random_move\<close> only read the agent: their models return a move
  and no state.
\<close>

theorem sets_grow:
  "moves_made a \<subseteq> moves_made (mark_mine c a) \<and> mines a \<subseteq> mines (mark_mine c a)
   \<and> safes a \<subseteq> safes (mark_mine c a)
   \<and> moves_made a \<subseteq> moves_made (mark_safe c a) \<and> mines a \<subseteq> mines (mark_safe c a)
   \<and> safes a \<subseteq> safes (mark_safe c a)
   \<and> (add_knowledge c n a = Some (Inr a') \<longrightarrow>
        moves_made a \<subseteq> moves_made a' \<and> mines a \<subseteq> mines a' \<and> safes a \<subseteq> safes a')"
proof -
  have "moves_made a \<subseteq> moves_made a' \<and> mines a \<subseteq> mines a' \<and> safes a \<subseteq> safes a'"
    if "add_knowledge c n a = Some (Inr a')"
    using grows_add_knowledge [OF that] by (simp add: grows_def)
  then show ?thesis by auto
qed

theorem sets_grow_witness:
  "add_knowledge (0, 0) 1 (init_ai 2 2) =
       Some (Inr \<lparr>height = 2, width = 2, moves_made = {(0, 0)}, mines = {}, safes = {(0, 0)},
         knowledge = [\<lparr>cells = {(0, 1), (1, 0), (1, 1)}, count = 1\<rparr>]\<rparr>)
   \<and> moves_made (init_ai 2 2) \<subseteq> {(0, 0)} \<and> mines (init_ai 2 2) \<subseteq> {}
   \<and> safes (init_ai 2 2) \<subseteq> {(0, 0)}"
  using sets_grow [of "init_ai 2 2" "(0, 0)" 1
      "\<lparr>height = 2, width = 2, moves_made = {(0, 0)}, mines = {}, safes = {(0, 0)},
         knowledge = [\<lparr>cells = {(0, 1), (1, 0), (1, 1)}, count = 1\<rparr>]\<rparr>"]
    add_knowledge_example
  by simp

end
